theory Spec2Isabelle
  imports Main
begin

section \<open>Typestates and symbolic states (SymState.cpp)\<close>

text \<open>
  The enumeration \<open>TypeState\<close> is declared in a header that is not part of the
  sources at hand; its values are the five that the two tables of
  \<open>SymState.cpp\<close> mention.
\<close>

datatype TypeState = Uinit | Error | Allocated | Freed | Opened

datatype parse_error = UnknownLabelError

text \<open>The two static tables of \<open>TypeStateParser\<close>, in the order of the source.\<close>

definition typeMap :: "(string \<times> TypeState) list" where
  "typeMap =
     [(''$uninit'', Uinit),
      (''$error'', Error),
      (''Allocated'', Allocated),
      (''Freed'', Freed),
      (''Opened'', Opened)]"

definition revTypeMap :: "(TypeState \<times> string) list" where
  "revTypeMap =
     [(Uinit, ''$uninit''),
      (Error, ''$error''),
      (Allocated, ''Allocated''),
      (Freed, ''Freed''),
      (Opened, ''Opened'')]"

text \<open>
  Modelled from the spec: the lookup functions of \<open>TypeStateParser\<close> live in the
  header \<open>SymState.h\<close>, which is missing. \<open>labelToState\<close> looks the label up in
  \<open>typeMap\<close> and fails with \<open>UnknownLabelError\<close> when it is absent (no fallback).
\<close>

definition labelToState :: "string \<Rightarrow> parse_error + TypeState" where
  "labelToState label =
     (case map_of typeMap label of
        None \<Rightarrow> Inl UnknownLabelError
      | Some t \<Rightarrow> Inr t)"

text \<open>
  Modelled from the spec: \<open>stateToLabel\<close> (also in the missing header) is total over
  the enumeration and returns the label that \<open>revTypeMap\<close> holds for the state.
\<close>

definition stateToLabel :: "TypeState \<Rightarrow> string" where
  "stateToLabel t = (case map_of revTypeMap t of Some l \<Rightarrow> l | None \<Rightarrow> [])"

text \<open>
  A symbolic state: the abstract execution state and the logical formula are opaque to
  this component, so they are type parameters; \<open>bool_val\<close> stands for the formula
  engine's constructor of boolean constants (\<open>Z3Expr::getContext().bool_val\<close>).
\<close>

record ('es, 'expr) SymState =
  exeState :: 'es
  typeState :: TypeState
  branchCondition :: 'expr

definition mkSymState :: "(bool \<Rightarrow> 'expr) \<Rightarrow> 'es \<Rightarrow> TypeState \<Rightarrow> ('es, 'expr) SymState" where
  "mkSymState bool_val es ts =
     \<lparr> exeState = es, typeState = ts, branchCondition = bool_val True \<rparr>"

section \<open>Control-flow graphs and dominance results\<close>

text \<open>
  A basic block is identified by its address, a natural number. A pointer to a basic
  block may be null: \<open>None\<close> is \<open>nullptr\<close>, which the post-dominator computation
  uses as the virtual exit block.
\<close>

type_synonym BB = nat
type_synonym BBptr = "nat option"
type_synonym BBSet = "BBptr set"
type_synonym DominatorMap = "BBptr \<rightharpoonup> BBSet"

record SVFFunction =
  getEntryBlock :: BB
  getBasicBlockList :: "BB list"
  getSuccessors :: "BB \<Rightarrow> BB list"
  getPredecessors :: "BB \<Rightarrow> BB list"

record SVFLoopAndDomInfo =
  getDomTreeMap :: DominatorMap
  getPostDomTreeMap :: DominatorMap

text \<open>\<open>m[k].insert(c)\<close> on a map of sets: a missing key is created with the empty set.\<close>

definition insert_edge :: "DominatorMap \<Rightarrow> BBptr \<Rightarrow> BBptr \<Rightarrow> DominatorMap" where
  "insert_edge m k c = m(k \<mapsto> insert c (case m k of None \<Rightarrow> {} | Some s \<Rightarrow> s))"

text \<open>A loop body that may fail, run over a list from left to right.\<close>

fun foldM :: "('a \<Rightarrow> 's \<Rightarrow> 's option) \<Rightarrow> 'a list \<Rightarrow> 's \<Rightarrow> 's option" where
  "foldM f [] s = Some s"
| "foldM f (x # xs) s = (case f x s of None \<Rightarrow> None | Some s' \<Rightarrow> foldM f xs s')"

section \<open>Reverse post-order\<close>

text \<open>
  The recursive lambda \<open>DFSUtil\<close> and the loop over the neighbours inside it call each
  other. Both are one function here: \<open>Inl v\<close> is the call \<open>DFSUtil(v)\<close>,
  \<open>Inr ss\<close> is the rest \<open>ss\<close> of the loop over the neighbours. The state is the pair
  of the set \<open>reachable\<close> and the vector \<open>revPostOrder\<close> (in post-order until it
  is reversed). \<open>adj\<close> is \<open>getSuccessors\<close> for dominators and
  \<open>getPredecessors\<close> for post-dominators. A traversal that does not return is
  \<open>None\<close>.
\<close>

partial_function (option) DFSUtil ::
  "(BB \<Rightarrow> BB list) \<Rightarrow> BB + BB list \<Rightarrow> BB set \<times> BB list \<Rightarrow> (BB set \<times> BB list) option" where
  "DFSUtil adj w st =
     (case w of
        Inl v \<Rightarrow>
          Option.bind (DFSUtil adj (Inr (adj v)) (insert v (fst st), snd st))
            (\<lambda>st'. Some (fst st', snd st' @ [v]))
      | Inr [] \<Rightarrow> Some st
      | Inr (s # ss) \<Rightarrow>
          (if s \<in> fst st then DFSUtil adj (Inr ss) st
           else Option.bind (DFSUtil adj (Inl s) st) (\<lambda>st'. DFSUtil adj (Inr ss) st')))"

declare DFSUtil.simps [code]

text \<open>
  \<open>getReversePostOrder\<close>: one traversal from each root in turn, then the vector is
  reversed. The dominator computation has the entry block as its only root.
\<close>

definition getReversePostOrder ::
  "(BB \<Rightarrow> BB list) \<Rightarrow> BB list \<Rightarrow> (BB set \<times> BB list) option" where
  "getReversePostOrder adj roots =
     (case foldM (\<lambda>bb. DFSUtil adj (Inl bb)) roots ({}, []) of
        None \<Rightarrow> None
      | Some st \<Rightarrow> Some (fst st, rev (snd st)))"

text \<open>
  The map \<open>bbToIdx\<close> is filled by a loop over the indices; \<open>bbToIdx[p]\<close> on a
  missing key yields the default value 0.
\<close>

definition build_bbToIdx :: "'p list \<Rightarrow> ('p \<rightharpoonup> nat)" where
  "build_bbToIdx revPostOrder =
     fold (\<lambda>i m. m(revPostOrder ! i \<mapsto> i)) [0..<length revPostOrder] Map.empty"

definition idx_of :: "('p \<rightharpoonup> nat) \<Rightarrow> 'p \<Rightarrow> nat" where
  "idx_of bbToIdx p = (case bbToIdx p of None \<Rightarrow> 0 | Some i \<Rightarrow> i)"

section \<open>The fast iterative algorithm\<close>

text \<open>
  The two inner loops \<open>while (B1 > B2) B1 = IDoms[B1]\<close>: \<open>climb IDoms B1 B2\<close> is the
  value of \<open>B1\<close> when the loop ends. A read outside the vector has no defined result and
  a walk that never ends has none either: both are \<open>None\<close>.
\<close>

partial_function (option) climb :: "int list \<Rightarrow> int \<Rightarrow> int \<Rightarrow> int option" where
  "climb IDoms B1 B2 =
     (if B1 > B2
      then (if 0 \<le> B1 \<and> nat B1 < length IDoms then climb IDoms (IDoms ! nat B1) B2 else None)
      else Some B1)"

declare climb.simps [code]

text \<open>The loop \<open>while (B1 != B2) { ... }\<close> around them; the result is \<open>B1\<close>.\<close>

partial_function (option) intersect :: "int list \<Rightarrow> int \<Rightarrow> int \<Rightarrow> int option" where
  "intersect IDoms B1 B2 =
     (if B1 \<noteq> B2
      then Option.bind (climb IDoms B1 B2)
             (\<lambda>B1'. Option.bind (climb IDoms B2 B1') (\<lambda>B2'. intersect IDoms B1' B2'))
      else Some B1)"

declare intersect.simps [code]

text \<open>
  The body of the loop over the neighbours of a block (its predecessors for dominators,
  its successors for post-dominators): \<open>new_idom\<close> is updated from the neighbour
  \<open>predBB\<close>.
\<close>

definition process_neighbour ::
  "'p set \<Rightarrow> ('p \<rightharpoonup> nat) \<Rightarrow> int list \<Rightarrow> 'p \<Rightarrow> int \<Rightarrow> int option" where
  "process_neighbour reachable bbToIdx IDoms predBB new_idom =
     (if predBB \<notin> reachable then Some new_idom
      else
        let pred = idx_of bbToIdx predBB in
        if \<not> pred < length IDoms then None
        else if IDoms ! pred = -1 then Some new_idom
        else if new_idom = -1 then Some (int pred)
        else intersect IDoms new_idom (int pred))"

text \<open>
  The body of the loop \<open>for (int i = 0; i < n; i++)\<close>; the state is the vector
  \<open>IDoms\<close> and the flag \<open>change\<close>. \<open>nbrs i\<close> is the list of neighbours read
  from the block at index \<open>i\<close>, or \<open>None\<close> when that read has no defined result
  (the block pointer is null).
\<close>

definition visit ::
  "'p set \<Rightarrow> ('p \<rightharpoonup> nat) \<Rightarrow> (nat \<Rightarrow> 'p list option) \<Rightarrow> nat \<Rightarrow> nat \<Rightarrow> int list \<times> bool
     \<Rightarrow> (int list \<times> bool) option" where
  "visit reachable bbToIdx nbrs root i st =
     (if i = root then Some st
      else
        (case nbrs i of
           None \<Rightarrow> None
         | Some ps \<Rightarrow>
             (case foldM (process_neighbour reachable bbToIdx (fst st)) ps (-1) of
                None \<Rightarrow> None
              | Some new_idom \<Rightarrow>
                  if fst st ! i \<noteq> new_idom then Some ((fst st)[i := new_idom], True)
                  else Some st)))"

text \<open>The loop \<open>while (change)\<close>: one pass over all indices, repeated until no slot changes.\<close>

partial_function (option) iterate ::
  "'p set \<Rightarrow> ('p \<rightharpoonup> nat) \<Rightarrow> (nat \<Rightarrow> 'p list option) \<Rightarrow> nat \<Rightarrow> int list \<Rightarrow> int list option" where
  "iterate reachable bbToIdx nbrs root IDoms =
     (case foldM (visit reachable bbToIdx nbrs root) [0..<length IDoms] (IDoms, False) of
        None \<Rightarrow> None
      | Some st \<Rightarrow>
          if snd st then iterate reachable bbToIdx nbrs root (fst st) else Some (fst st))"

declare iterate.simps [code]

text \<open>
  The first part of \<open>computeDominators\<close>, up to the end of the loop
  \<open>while (change)\<close>: the result is the vector \<open>revPostOrder\<close> and the vector
  \<open>IDoms\<close>.
\<close>

definition computeIDoms :: "SVFFunction \<Rightarrow> (BB list \<times> int list) option" where
  "computeIDoms func =
     (case getReversePostOrder (getSuccessors func) [getEntryBlock func] of
        None \<Rightarrow> None
      | Some (reachable, revPostOrder) \<Rightarrow>
          let bbToIdx = build_bbToIdx revPostOrder;
              root = idx_of bbToIdx (getEntryBlock func);
              n = length revPostOrder
          in if \<not> root < n then None
             else
               (case iterate reachable bbToIdx
                       (\<lambda>i. Some (getPredecessors func (revPostOrder ! i))) root
                       ((replicate n (-1))[root := int root]) of
                  None \<Rightarrow> None
                | Some IDoms \<Rightarrow> Some (revPostOrder, IDoms)))"

text \<open>The last loop of \<open>computeDominators\<close>, which fills the dominator tree map.\<close>

definition populateDom :: "BB list \<Rightarrow> int list \<Rightarrow> nat \<Rightarrow> DominatorMap \<Rightarrow> DominatorMap option" where
  "populateDom revPostOrder IDoms i dtBBsMap =
     (let d = IDoms ! i in
      if d \<noteq> -1 \<and> int i \<noteq> d
      then (if 0 \<le> d \<and> nat d < length revPostOrder
            then Some (insert_edge dtBBsMap (Some (revPostOrder ! nat d)) (Some (revPostOrder ! i)))
            else None)
      else Some dtBBsMap)"

definition computeDominators :: "SVFFunction \<Rightarrow> SVFLoopAndDomInfo \<Rightarrow> SVFLoopAndDomInfo option" where
  "computeDominators func info =
     (case computeIDoms func of
        None \<Rightarrow> None
      | Some (revPostOrder, IDoms) \<Rightarrow>
          (case foldM (populateDom revPostOrder IDoms) [0..<length revPostOrder]
                  (getDomTreeMap info) of
             None \<Rightarrow> None
           | Some m \<Rightarrow> Some (info\<lparr>getDomTreeMap := m\<rparr>)))"

section \<open>Post-dominators\<close>

text \<open>
  \<open>exitBBs\<close> is a hash set of pointers, and the traversals start from its elements in
  the order in which the set enumerates them. That order is a parameter \<open>iter\<close> of the
  model: it turns the list of the elements inserted into the list enumerated.
\<close>

definition set_iteration :: "(BB list \<Rightarrow> BB list) \<Rightarrow> bool" where
  "set_iteration iter \<longleftrightarrow> (\<forall>xs. set (iter xs) = set xs \<and> distinct (iter xs))"

definition exitBBs :: "(BB list \<Rightarrow> BB list) \<Rightarrow> SVFFunction \<Rightarrow> BB list" where
  "exitBBs iter func = iter (filter (\<lambda>bb. getSuccessors func bb = []) (getBasicBlockList func))"

text \<open>
  The successors read from a block pointer: an exit block has the virtual exit
  (\<open>nullptr\<close>) as its only successor. Reading the successors of the null pointer has
  no defined result.
\<close>

definition successorsOrExit :: "SVFFunction \<Rightarrow> BBptr \<Rightarrow> BBptr list option" where
  "successorsOrExit func p =
     (case p of
        None \<Rightarrow> None
      | Some bb \<Rightarrow>
          Some (if getSuccessors func bb = [] then [None]
                else map Some (getSuccessors func bb)))"

text \<open>
  \<open>computePostDominators\<close> up to the end of its loop \<open>while (change)\<close>, which is
  the loop of \<open>computeDominators\<close> with the successors in place of the predecessors.
  The vector \<open>revPostOrder\<close> holds the virtual exit at index 0, and the root is
  index 0.
\<close>

definition computeIPdoms ::
  "(BB list \<Rightarrow> BB list) \<Rightarrow> SVFFunction \<Rightarrow> (BBptr list \<times> int list) option" where
  "computeIPdoms iter func =
     (case getReversePostOrder (getPredecessors func) (exitBBs iter func) of
        None \<Rightarrow> None
      | Some (reachable0, revPostOrder0) \<Rightarrow>
          let revPostOrder = None # map Some revPostOrder0;
              reachable = insert None (Some ` reachable0);
              bbToIdx = build_bbToIdx revPostOrder;
              n = length revPostOrder
          in (case iterate reachable bbToIdx
                     (\<lambda>i. successorsOrExit func (revPostOrder ! i)) 0
                     ((replicate n (-1))[0 := 0]) of
                None \<Rightarrow> None
              | Some IPdoms \<Rightarrow> Some (revPostOrder, IPdoms)))"

text \<open>The last loop of \<open>computePostDominators\<close>; it starts at index 1.\<close>

definition populatePostDom ::
  "BBptr list \<Rightarrow> int list \<Rightarrow> nat \<Rightarrow> DominatorMap \<Rightarrow> DominatorMap option" where
  "populatePostDom revPostOrder IPdoms i pdtBBsMap =
     (let d = IPdoms ! i in
      if d \<noteq> 0 \<and> d \<noteq> -1 \<and> int i \<noteq> d
      then (if 0 \<le> d \<and> nat d < length revPostOrder
            then Some (insert_edge pdtBBsMap (revPostOrder ! nat d) (revPostOrder ! i))
            else None)
      else Some pdtBBsMap)"

definition computePostDominators ::
  "(BB list \<Rightarrow> BB list) \<Rightarrow> SVFFunction \<Rightarrow> SVFLoopAndDomInfo \<Rightarrow> SVFLoopAndDomInfo option" where
  "computePostDominators iter func info =
     (case computeIPdoms iter func of
        None \<Rightarrow> None
      | Some (revPostOrder, IPdoms) \<Rightarrow>
          (case foldM (populatePostDom revPostOrder IPdoms) [1..<length revPostOrder]
                  (getPostDomTreeMap info) of
             None \<Rightarrow> None
           | Some m \<Rightarrow> Some (info\<lparr>getPostDomTreeMap := m\<rparr>)))"

text \<open>\<open>analyze\<close>: the dominators, then the post-dominators.\<close>

definition analyze ::
  "(BB list \<Rightarrow> BB list) \<Rightarrow> SVFFunction \<Rightarrow> SVFLoopAndDomInfo \<Rightarrow> SVFLoopAndDomInfo option" where
  "analyze iter func info =
     (case computeDominators func info of
        None \<Rightarrow> None
      | Some info' \<Rightarrow> computePostDominators iter func info')"

section \<open>The classic set-intersection algorithm\<close>

text \<open>
  \<open>computeDominators_classic\<close> keeps one set of indices per block
  (\<open>vector<set<int>>\<close>). The indices stored are never negative, so the sets are
  sets of natural numbers here. After the two initialisation loops the root holds its
  own index and every other block holds all indices.
\<close>

definition initDominators :: "nat \<Rightarrow> nat \<Rightarrow> nat set list" where
  "initDominators n root = map (\<lambda>i. if i = root then {i} else {0..<n}) [0..<n]"

text \<open>The body of the loop over the predecessors; the state is \<open>newDom\<close> and \<open>firstPred\<close>.\<close>

definition process_pred_classic ::
  "'p set \<Rightarrow> ('p \<rightharpoonup> nat) \<Rightarrow> nat set list \<Rightarrow> 'p \<Rightarrow> nat set \<times> bool \<Rightarrow> (nat set \<times> bool) option" where
  "process_pred_classic reachable bbToIdx dominators predBB st =
     (if predBB \<notin> reachable then Some st
      else
        let pred = idx_of bbToIdx predBB in
        if \<not> pred < length dominators then None
        else if snd st then Some (dominators ! pred, False)
        else Some (fst st \<inter> dominators ! pred, False))"

definition visit_classic ::
  "'p set \<Rightarrow> ('p \<rightharpoonup> nat) \<Rightarrow> (nat \<Rightarrow> 'p list option) \<Rightarrow> nat \<Rightarrow> nat \<Rightarrow> nat set list \<times> bool
     \<Rightarrow> (nat set list \<times> bool) option" where
  "visit_classic reachable bbToIdx nbrs root i st =
     (if i = root then Some st
      else
        (case nbrs i of
           None \<Rightarrow> None
         | Some ps \<Rightarrow>
             (case foldM (process_pred_classic reachable bbToIdx (fst st)) ps ({}, True) of
                None \<Rightarrow> None
              | Some r \<Rightarrow>
                  let newDom = insert i (fst r) in
                  if newDom \<noteq> fst st ! i then Some ((fst st)[i := newDom], True)
                  else Some st)))"

partial_function (option) iterate_classic ::
  "'p set \<Rightarrow> ('p \<rightharpoonup> nat) \<Rightarrow> (nat \<Rightarrow> 'p list option) \<Rightarrow> nat \<Rightarrow> nat set list
     \<Rightarrow> nat set list option" where
  "iterate_classic reachable bbToIdx nbrs root dominators =
     (case foldM (visit_classic reachable bbToIdx nbrs root) [0..<length dominators]
             (dominators, False) of
        None \<Rightarrow> None
      | Some st \<Rightarrow>
          if snd st then iterate_classic reachable bbToIdx nbrs root (fst st)
          else Some (fst st))"

declare iterate_classic.simps [code]

text \<open>
  The loop that picks the immediate dominator of \<open>u\<close>: it runs over
  \<open>dominators[u]\<close> in ascending order (the order of \<open>std::set<int>\<close>); the state
  is the slot \<open>IDoms[u]\<close>.
\<close>

definition pick_idom :: "nat set list \<Rightarrow> nat \<Rightarrow> nat \<Rightarrow> int \<Rightarrow> int option" where
  "pick_idom dominators u dm cur =
     (if dm = u then Some cur
      else if cur = -1 then Some (int dm)
      else if \<not> (dm < length dominators \<and> 0 \<le> cur \<and> nat cur < length dominators) then None
      else if card (dominators ! dm) > card (dominators ! nat cur) then Some (int dm)
      else Some cur)"

definition idom_classic :: "nat set list \<Rightarrow> nat \<Rightarrow> nat \<Rightarrow> int list \<Rightarrow> int list option" where
  "idom_classic dominators root u IDoms =
     (if u = root then Some IDoms
      else
        (case foldM (pick_idom dominators u) (sorted_list_of_set (dominators ! u)) (IDoms ! u) of
           None \<Rightarrow> None
         | Some d \<Rightarrow> Some (IDoms[u := d])))"

definition computeIDoms_classic :: "SVFFunction \<Rightarrow> (BB list \<times> int list) option" where
  "computeIDoms_classic func =
     (case getReversePostOrder (getSuccessors func) [getEntryBlock func] of
        None \<Rightarrow> None
      | Some (reachable, revPostOrder) \<Rightarrow>
          let bbToIdx = build_bbToIdx revPostOrder;
              root = idx_of bbToIdx (getEntryBlock func);
              n = length revPostOrder
          in (case iterate_classic reachable bbToIdx
                     (\<lambda>i. Some (getPredecessors func (revPostOrder ! i))) root
                     (initDominators n root) of
                None \<Rightarrow> None
              | Some dominators \<Rightarrow>
                  (case foldM (idom_classic dominators root) [0..<n] (replicate n (-1)) of
                     None \<Rightarrow> None
                   | Some IDoms \<Rightarrow> Some (revPostOrder, IDoms))))"

text \<open>The last loop of \<open>computeDominators_classic\<close>: every slot other than -1 is stored.\<close>

definition populateDom_classic ::
  "BB list \<Rightarrow> int list \<Rightarrow> nat \<Rightarrow> DominatorMap \<Rightarrow> DominatorMap option" where
  "populateDom_classic revPostOrder IDoms i dtBBsMap =
     (let d = IDoms ! i in
      if d \<noteq> -1
      then (if 0 \<le> d \<and> nat d < length revPostOrder
            then Some (insert_edge dtBBsMap (Some (revPostOrder ! nat d)) (Some (revPostOrder ! i)))
            else None)
      else Some dtBBsMap)"

definition computeDominators_classic ::
  "SVFFunction \<Rightarrow> SVFLoopAndDomInfo \<Rightarrow> SVFLoopAndDomInfo option" where
  "computeDominators_classic func info =
     (case computeIDoms_classic func of
        None \<Rightarrow> None
      | Some (revPostOrder, IDoms) \<Rightarrow>
          (case foldM (populateDom_classic revPostOrder IDoms) [0..<length revPostOrder]
                  (getDomTreeMap info) of
             None \<Rightarrow> None
           | Some m \<Rightarrow> Some (info\<lparr>getDomTreeMap := m\<rparr>)))"

section \<open>Example graphs\<close>

text \<open>
  The diamond \<open>Entry \<rightarrow> A, Entry \<rightarrow> B, A \<rightarrow> C, B \<rightarrow> C, C \<rightarrow> Exit\<close>, with the blocks
  \<open>Entry\<close>, \<open>A\<close>, \<open>B\<close>, \<open>C\<close>, \<open>Exit\<close> at the addresses 0, 1, 2, 3, 4.
\<close>

definition diamond :: SVFFunction where
  "diamond =
     \<lparr> getEntryBlock = 0,
       getBasicBlockList = [0, 1, 2, 3, 4],
       getSuccessors = (\<lambda>b. if b = 0 then [1, 2] else if b = 1 then [3]
                             else if b = 2 then [3] else if b = 3 then [4] else []),
       getPredecessors = (\<lambda>b. if b = 1 then [0] else if b = 2 then [0]
                               else if b = 3 then [1, 2] else if b = 4 then [3] else []) \<rparr>"

definition emptyInfo :: SVFLoopAndDomInfo where
  "emptyInfo = \<lparr> getDomTreeMap = Map.empty, getPostDomTreeMap = Map.empty \<rparr>"

text \<open>
  A function whose entry block (address 0) branches to two exit blocks (addresses 1
  and 2).
\<close>

definition twoExits :: SVFFunction where
  "twoExits =
     \<lparr> getEntryBlock = 0,
       getBasicBlockList = [0, 1, 2],
       getSuccessors = (\<lambda>b. if b = 0 then [1, 2] else []),
       getPredecessors = (\<lambda>b. if b = 1 then [0] else if b = 2 then [0] else []) \<rparr>"

text \<open>A function that consists of one block, which is both entry and exit.\<close>

definition oneBlock :: SVFFunction where
  "oneBlock =
     \<lparr> getEntryBlock = 0,
       getBasicBlockList = [0],
       getSuccessors = (\<lambda>b. []),
       getPredecessors = (\<lambda>b. []) \<rparr>"

text \<open>
  A function with an endless loop and with dead code: the entry block 0 branches to the
  block 1, which loops on itself for ever, and to the exit block 2; the block 3 is not
  reachable from the entry block and jumps to the block 2.
\<close>

definition loopy :: SVFFunction where
  "loopy =
     \<lparr> getEntryBlock = 0,
       getBasicBlockList = [0, 1, 2, 3],
       getSuccessors = (\<lambda>b. if b = 0 then [1, 2] else if b = 1 then [1]
                             else if b = 3 then [2] else []),
       getPredecessors = (\<lambda>b. if b = 1 then [0, 1] else if b = 2 then [0, 3] else []) \<rparr>"

text \<open>
  A function whose entry block 0 jumps to the block 1, which branches to the two exit
  blocks 2 and 3.
\<close>

definition forked :: SVFFunction where
  "forked =
     \<lparr> getEntryBlock = 0,
       getBasicBlockList = [0, 1, 2, 3],
       getSuccessors = (\<lambda>b. if b = 0 then [1] else if b = 1 then [2, 3] else []),
       getPredecessors = (\<lambda>b. if b = 1 then [0] else if b = 2 then [1]
                               else if b = 3 then [1] else []) \<rparr>"

text \<open>
  Maps that hold an entry from an earlier run on another graph: the dominator map sends
  the block 1 to the block 3.
\<close>

definition staleInfo :: SVFLoopAndDomInfo where
  "staleInfo = \<lparr> getDomTreeMap = [Some 1 \<mapsto> {Some 3}], getPostDomTreeMap = Map.empty \<rparr>"

section \<open>Notions used to state and prove the properties\<close>

subsection \<open>The tree held in the vector of immediate dominators\<close>

text \<open>
  \<open>chain IDoms j\<close> walks from index \<open>j\<close> towards the root: it follows the slots as
  long as they hold a smaller index. For the vectors the algorithm builds this is the
  path from \<open>j\<close> to the root in the current tree.
\<close>

function chain :: "int list \<Rightarrow> nat \<Rightarrow> nat list" where
  "chain T j =
     (if 0 < j \<and> j < length T \<and> 0 \<le> T ! j \<and> T ! j < int j
      then j # chain T (nat (T ! j))
      else [j])"
  by pat_completeness auto
termination
  by (relation "measure snd") auto

declare chain.simps [simp del]

text \<open>A slot is processed when it no longer holds the sentinel -1.\<close>

definition proc :: "int list \<Rightarrow> nat \<Rightarrow> bool" where
  "proc T j \<longleftrightarrow> j < length T \<and> T ! j \<noteq> -1"

text \<open>
  The shape of the vector at every moment of the iteration: the root (index 0) holds
  itself, and a processed slot holds a smaller index whose slot is processed too.
\<close>

definition valid :: "int list \<Rightarrow> bool" where
  "valid T \<longleftrightarrow>
     0 < length T \<and> T ! 0 = 0 \<and>
     (\<forall>j. 0 < j \<and> j < length T \<and> T ! j \<noteq> -1 \<longrightarrow>
          0 \<le> T ! j \<and> T ! j < int j \<and> T ! nat (T ! j) \<noteq> -1)"

subsection \<open>The graph on indices\<close>

text \<open>
  The neighbours of the block at index \<open>i\<close> that pass the test
  \<open>reachable.count\<close>, as indices.
\<close>

definition idx_nbrs :: "'p set \<Rightarrow> ('p \<rightharpoonup> nat) \<Rightarrow> (nat \<Rightarrow> 'p list option) \<Rightarrow> nat \<Rightarrow> nat list" where
  "idx_nbrs reachable bbToIdx nbrs i =
     (case nbrs i of
        None \<Rightarrow> []
      | Some ps \<Rightarrow> map (idx_of bbToIdx) (filter (\<lambda>p. p \<in> reachable) ps))"

text \<open>
  What a reverse post-order numbering gives: the indices of all neighbours are in
  range, and every index but the root has a neighbour with a smaller index.
\<close>

definition rpo_graph :: "nat \<Rightarrow> (nat \<Rightarrow> nat list) \<Rightarrow> bool" where
  "rpo_graph n g \<longleftrightarrow>
     0 < n \<and> (\<forall>i<n. \<forall>p\<in>set (g i). p < n) \<and>
     (\<forall>i. 0 < i \<and> i < n \<longrightarrow> (\<exists>p\<in>set (g i). p < i))"

text \<open>The loop body on an index in place of a pointer.\<close>

definition absorb :: "int list \<Rightarrow> nat \<Rightarrow> int \<Rightarrow> int option" where
  "absorb T p acc =
     (if T ! p = -1 then Some acc
      else if acc = -1 then Some (int p)
      else intersect T acc (int p))"

text \<open>\<open>fwd g a x\<close>: a path from \<open>a\<close> to \<open>x\<close> along which the indices increase.\<close>

inductive fwd :: "(nat \<Rightarrow> nat list) \<Rightarrow> nat \<Rightarrow> nat \<Rightarrow> bool" for g :: "nat \<Rightarrow> nat list" and a :: nat where
  fwd_refl: "fwd g a a"
| fwd_step: "fwd g a p \<Longrightarrow> p \<in> set (g x) \<Longrightarrow> p < x \<Longrightarrow> fwd g a x"

subsection \<open>Invariants of the iteration\<close>

text \<open>
  Every index on the way from \<open>x\<close> to the root is the start of a path to \<open>x\<close> with
  increasing indices.
\<close>

definition inv_KF :: "(nat \<Rightarrow> nat list) \<Rightarrow> int list \<Rightarrow> bool" where
  "inv_KF g T \<longleftrightarrow> (\<forall>x a. proc T x \<and> a \<in> set (chain T x) \<longrightarrow> fwd g a x)"

text \<open>
  The slots below \<open>i\<close> have been visited in the current pass: they are processed, and
  the slot of \<open>j\<close> lies on the way to the root from every neighbour of \<open>j\<close> with a
  smaller index.
\<close>

definition inv_IF :: "(nat \<Rightarrow> nat list) \<Rightarrow> int list \<Rightarrow> nat \<Rightarrow> bool" where
  "inv_IF g T i \<longleftrightarrow>
     (\<forall>j. j < i \<and> j < length T \<longrightarrow>
          proc T j \<and> (0 < j \<longrightarrow> (\<forall>p\<in>set (g j). p < j \<longrightarrow> nat (T ! j) \<in> set (chain T p))))"

text \<open>
  No index between the slot of \<open>j\<close> and \<open>j\<close> lies on the way to the root from all
  processed neighbours of \<open>j\<close>.
\<close>

definition inv_IN :: "(nat \<Rightarrow> nat list) \<Rightarrow> int list \<Rightarrow> bool" where
  "inv_IN g T \<longleftrightarrow>
     (\<forall>j x. 0 < j \<and> proc T j \<and> nat (T ! j) < x \<and> x < j \<longrightarrow>
            (\<exists>p\<in>set (g j). proc T p \<and> x \<notin> set (chain T p)))"

definition chk_inv :: "(nat \<Rightarrow> nat list) \<Rightarrow> int list \<Rightarrow> nat \<Rightarrow> bool" where
  "chk_inv g T i \<longleftrightarrow> valid T \<and> inv_KF g T \<and> inv_IF g T i \<and> inv_IN g T"

text \<open>The quantity that decreases whenever a slot changes.\<close>

definition depth_sum :: "int list \<Rightarrow> nat" where
  "depth_sum T =
     (\<Sum>j<length T. if T ! j = -1 then length T + 1 else length (chain T j))"

text \<open>The loop body of a pass, on indices, and the slots that a pass leaves as they are.\<close>

definition visit_idx :: "(nat \<Rightarrow> nat list) \<Rightarrow> nat \<Rightarrow> int list \<times> bool \<Rightarrow> (int list \<times> bool) option" where
  "visit_idx g i st =
     (if i = 0 then Some st
      else
        (case foldM (absorb (fst st)) (g i) (-1) of
           None \<Rightarrow> None
         | Some r \<Rightarrow>
             if fst st ! i \<noteq> r then Some ((fst st)[i := r], True) else Some st))"

definition fix_at :: "(nat \<Rightarrow> nat list) \<Rightarrow> int list \<Rightarrow> nat \<Rightarrow> bool" where
  "fix_at g T i \<longleftrightarrow> i = 0 \<or> foldM (absorb T) (g i) (-1) = Some (T ! i)"

text \<open>
  The neighbours can be read from every block but the root, and the neighbours that
  pass the test \<open>reachable.count\<close> have an index in range.
\<close>

definition nbrs_ok :: "nat \<Rightarrow> 'p set \<Rightarrow> ('p \<rightharpoonup> nat) \<Rightarrow> (nat \<Rightarrow> 'p list option) \<Rightarrow> bool" where
  "nbrs_ok n reachable bbToIdx nbrs \<longleftrightarrow>
     (\<forall>i. 0 < i \<and> i < n \<longrightarrow>
        (\<exists>ps. nbrs i = Some ps \<and> (\<forall>p\<in>set ps. p \<in> reachable \<longrightarrow> idx_of bbToIdx p < n)))"

subsection \<open>Graphs on blocks and the traversal\<close>

definition edge_rel :: "(BB \<Rightarrow> BB list) \<Rightarrow> (BB \<times> BB) set" where
  "edge_rel adj = {(u, v). v \<in> set (adj u)}"

text \<open>
  In the post-order \<open>po\<close> the block \<open>x\<close> is followed by a block that has \<open>x\<close> as a
  neighbour: the block from which the traversal reached \<open>x\<close>.
\<close>

definition later_parent :: "(BB \<Rightarrow> BB list) \<Rightarrow> BB list \<Rightarrow> BB \<Rightarrow> bool" where
  "later_parent adj po x \<longleftrightarrow> (\<exists>xs ys u. po = xs @ x # ys \<and> u \<in> set ys \<and> x \<in> set (adj u))"

text \<open>
  What a traversal started from the blocks \<open>srcs\<close> with the set \<open>R\<close> visited before
  adds: the list \<open>new\<close> of the blocks it pushes, inside the finite universe \<open>V\<close>.
\<close>

definition dfs_post :: "(BB \<Rightarrow> BB list) \<Rightarrow> BB set \<Rightarrow> BB set \<Rightarrow> BB list \<Rightarrow> BB list \<Rightarrow> bool" where
  "dfs_post adj V R srcs new \<longleftrightarrow>
     distinct new \<and> set new \<inter> R = {} \<and> set new \<subseteq> V \<and>
     (\<forall>x\<in>set new. set (adj x) \<subseteq> R \<union> set new) \<and>
     (\<forall>x\<in>set new. x \<in> set srcs \<or> later_parent adj new x) \<and>
     (\<forall>x\<in>set new. \<exists>s\<in>set srcs. (s, x) \<in> (edge_rel adj)\<^sup>*)"

definition dfs_inr_spec :: "(BB \<Rightarrow> BB list) \<Rightarrow> BB set \<Rightarrow> BB set \<Rightarrow> BB list \<Rightarrow> BB list \<Rightarrow> bool" where
  "dfs_inr_spec adj V R ss po \<longleftrightarrow>
     (\<exists>new. DFSUtil adj (Inr ss) (R, po) = Some (R \<union> set new, po @ new) \<and>
            dfs_post adj V R ss new \<and> set ss \<subseteq> R \<union> set new)"

definition dfs_inl_spec :: "(BB \<Rightarrow> BB list) \<Rightarrow> BB set \<Rightarrow> BB set \<Rightarrow> BB \<Rightarrow> BB list \<Rightarrow> bool" where
  "dfs_inl_spec adj V R v po \<longleftrightarrow>
     (\<exists>new. DFSUtil adj (Inl v) (R, po) = Some (R \<union> set new, po @ new) \<and>
            dfs_post adj V R [v] new \<and> new \<noteq> [] \<and> last new = v)"

subsection \<open>Well-formed functions\<close>

text \<open>
  The control-flow graph handed to the analysis: the entry block is a block of the
  function, successors and predecessors of its blocks are blocks of the function, and
  the predecessor lists mirror the successor lists.
\<close>

definition wf_cfg :: "SVFFunction \<Rightarrow> bool" where
  "wf_cfg func \<longleftrightarrow>
     getEntryBlock func \<in> set (getBasicBlockList func) \<and>
     (\<forall>b\<in>set (getBasicBlockList func).
        set (getSuccessors func b) \<subseteq> set (getBasicBlockList func) \<and>
        set (getPredecessors func b) \<subseteq> set (getBasicBlockList func)) \<and>
     (\<forall>u\<in>set (getBasicBlockList func). \<forall>v\<in>set (getBasicBlockList func).
        v \<in> set (getSuccessors func u) \<longleftrightarrow> u \<in> set (getPredecessors func v))"

text \<open>The blocks with a path from the entry block.\<close>

definition entry_reachable :: "SVFFunction \<Rightarrow> BB set" where
  "entry_reachable func = (edge_rel (getSuccessors func))\<^sup>* `` {getEntryBlock func}"

text \<open>The exit blocks, and the blocks of the function with a path to an exit block.\<close>

definition exit_blocks :: "SVFFunction \<Rightarrow> BB set" where
  "exit_blocks func = {b \<in> set (getBasicBlockList func). getSuccessors func b = []}"

definition exit_reaching :: "SVFFunction \<Rightarrow> BB set" where
  "exit_reaching func =
     {b \<in> set (getBasicBlockList func).
        \<exists>e\<in>exit_blocks func. (b, e) \<in> (edge_rel (getSuccessors func))\<^sup>*}"

text \<open>The graphs on indices of the two computations.\<close>

definition dom_graph :: "SVFFunction \<Rightarrow> BB list \<Rightarrow> nat \<Rightarrow> nat list" where
  "dom_graph func rpo =
     idx_nbrs (set rpo) (build_bbToIdx rpo) (\<lambda>i. Some (getPredecessors func (rpo ! i)))"

definition postdom_graph :: "SVFFunction \<Rightarrow> BBptr list \<Rightarrow> nat \<Rightarrow> nat list" where
  "postdom_graph func rpo =
     idx_nbrs (set rpo) (build_bbToIdx rpo) (\<lambda>i. successorsOrExit func (rpo ! i))"

text \<open>What the iteration has established when it ends, for a graph \<open>g\<close> on indices.\<close>

definition chk_done :: "(nat \<Rightarrow> nat list) \<Rightarrow> nat \<Rightarrow> int list \<Rightarrow> bool" where
  "chk_done g n T \<longleftrightarrow>
     rpo_graph n g \<and> length T = n \<and> chk_inv g T n \<and> (\<forall>j<n. fix_at g T j)"

subsection \<open>The maps as sets of edges\<close>

definition edges :: "DominatorMap \<Rightarrow> (BBptr \<times> BBptr) set" where
  "edges m = {(k, c). \<exists>S. m k = Some S \<and> c \<in> S}"

text \<open>The keys of a map together with the members of its sets.\<close>

definition map_nodes :: "DominatorMap \<Rightarrow> BBptr set" where
  "map_nodes m = dom m \<union> \<Union>(ran m)"

text \<open>The map after the edges \<open>E\<close> have been inserted one by one.\<close>

definition add_edges :: "DominatorMap \<Rightarrow> (BBptr \<times> BBptr) set \<Rightarrow> DominatorMap" where
  "add_edges m E =
     (\<lambda>k. if E `` {k} = {} then m k
          else Some ((case m k of None \<Rightarrow> {} | Some s \<Rightarrow> s) \<union> E `` {k}))"

text \<open>The edges that the last loops of the two computations insert, up to index \<open>k\<close>.\<close>

definition dom_edges :: "BB list \<Rightarrow> int list \<Rightarrow> nat \<Rightarrow> (BBptr \<times> BBptr) set" where
  "dom_edges rpo T k =
     {(Some (rpo ! nat (T ! i)), Some (rpo ! i)) |i. i < k \<and> T ! i \<noteq> -1 \<and> int i \<noteq> T ! i}"

definition postdom_edges :: "BBptr list \<Rightarrow> int list \<Rightarrow> nat \<Rightarrow> (BBptr \<times> BBptr) set" where
  "postdom_edges rpo T k =
     {(rpo ! nat (T ! i), rpo ! i) |i. 1 \<le> i \<and> i < k \<and> T ! i \<noteq> 0 \<and> T ! i \<noteq> -1 \<and> int i \<noteq> T ! i}"

subsection \<open>Trees\<close>

text \<open>
  The edges \<open>E\<close> (parent, child) form a tree over the nodes \<open>N\<close> with the root
  \<open>root\<close>: they join nodes of \<open>N\<close>, there are \<open>|N| - 1\<close> of them, they have no
  cycle, every node but the root has exactly one parent, and the root has none.
\<close>

definition tree_over :: "(BBptr \<times> BBptr) set \<Rightarrow> BBptr \<Rightarrow> BBptr set \<Rightarrow> bool" where
  "tree_over E root N \<longleftrightarrow>
     Field E \<subseteq> N \<and> card E = card N - 1 \<and> acyclic E \<and>
     (\<forall>b\<in>N - {root}. \<exists>!p. (p, b) \<in> E) \<and> (\<forall>p. (p, root) \<notin> E)"

text \<open>The parent edges that a vector of slots describes over an order of the blocks.\<close>

definition parent_edges :: "BBptr list \<Rightarrow> int list \<Rightarrow> (BBptr \<times> BBptr) set" where
  "parent_edges ps T = {(ps ! nat (T ! i), ps ! i) |i. 0 < i \<and> i < length ps}"


subsection \<open>Dominance\<close>

text \<open>
  A path in the control-flow graph: a non-empty list of blocks in which every block is
  followed by one of its successors.
\<close>

fun is_path :: "(BB \<Rightarrow> BB list) \<Rightarrow> BB list \<Rightarrow> bool" where
  "is_path adj [] = False"
| "is_path adj [x] = True"
| "is_path adj (x # y # r) = (y \<in> set (adj x) \<and> is_path adj (y # r))"


section \<open>Properties of the typestate table and of symbolic states\<close>

text \<open>
  Claim C8. Translating a typestate to its label and back yields the typestate, for
  every value of the enumeration; a label that is not in the table makes
  \<open>labelToState\<close> fail with \<open>UnknownLabelError\<close>, there is no fallback value.
\<close>

theorem label_bijection:
  "labelToState (stateToLabel t) = Inr t \<and>
   (l \<notin> fst ` set typeMap \<longrightarrow> labelToState l = Inl UnknownLabelError)"
proof
  show "labelToState (stateToLabel t) = Inr t"
    by (cases t) (simp_all add: labelToState_def stateToLabel_def typeMap_def revTypeMap_def)
next
  show "l \<notin> fst ` set typeMap \<longrightarrow> labelToState l = Inl UnknownLabelError"
  proof
    assume "l \<notin> fst ` set typeMap"
    then have "map_of typeMap l = None" by (simp add: map_of_eq_None_iff)
    then show "labelToState l = Inl UnknownLabelError" by (simp add: labelToState_def)
  qed
qed

theorem label_bijection_witness:
  "''bogus'' \<notin> fst ` set typeMap \<and>
   labelToState (stateToLabel Freed) = Inr Freed \<and>
   labelToState ''bogus'' = Inl UnknownLabelError"
proof -
  have h: "''bogus'' \<notin> fst ` set typeMap" by (simp add: typeMap_def)
  from h label_bijection [of Freed "''bogus''"] show ?thesis by simp
qed

text \<open>
  Claim C9. The branch condition of a symbolic state built by the constructor is the
  constant true of the formula engine, whatever the execution state and the typestate
  given to the constructor.
\<close>

theorem fresh_state_condition_true:
  "branchCondition (mkSymState bool_val es ts) = bool_val True"
  by (simp add: mkSymState_def)

section \<open>The diamond\<close>

lemma list_of_singleton: "set xs = {a} \<Longrightarrow> distinct xs \<Longrightarrow> xs = [a]"
proof (cases xs)
  case Nil
  assume "set xs = {a}"
  with Nil show ?thesis by simp
next
  case (Cons x ys)
  assume s: "set xs = {a}" and d: "distinct xs"
  from s Cons have xa: "x = a" by auto
  from s Cons have "set ys \<subseteq> {a}" by auto
  moreover from d Cons xa have "a \<notin> set ys" by simp
  ultimately have "ys = []" by (cases ys) auto
  with Cons xa show ?thesis by simp
qed

lemma analyze_exit_order:
  assumes "exitBBs iter func = exitBBs iter' func"
  shows "analyze iter func info = analyze iter' func info"
proof -
  from assms have "computeIPdoms iter func = computeIPdoms iter' func"
    by (simp add: computeIPdoms_def)
  then have "computePostDominators iter func = computePostDominators iter' func"
    by (simp add: computePostDominators_def fun_eq_iff)
  then show ?thesis by (simp add: analyze_def split: option.splits)
qed

lemma set_iteration_remdups: "set_iteration remdups"
  by (simp add: set_iteration_def)

lemma diamond_exits:
  assumes "set_iteration iter"
  shows "exitBBs iter diamond = [4]"
proof -
  have f: "filter (\<lambda>bb. getSuccessors diamond bb = []) (getBasicBlockList diamond) = [4]"
    by (simp add: diamond_def)
  from assms have "set (iter [4]) = {4}" "distinct (iter [4])"
    by (auto simp: set_iteration_def)
  then have "iter [4] = [4]" by (rule list_of_singleton)
  then show ?thesis by (simp add: exitBBs_def f)
qed

lemma diamond_remdups:
  "map_option (\<lambda>i. (getDomTreeMap i (Some 0), getDomTreeMap i (Some 1),
                     getDomTreeMap i (Some 2), getPostDomTreeMap i (Some 3)))
     (analyze remdups diamond emptyInfo)
   = Some (Some {Some 1, Some 2, Some 3}, None, None, Some {Some 1, Some 2, Some 0})"
  by code_simp

text \<open>
  Claim C5. On the diamond, with the maps empty before, \<open>analyze\<close> returns; the
  dominator map sends \<open>Entry\<close> to \<open>{A, B, C}\<close> and has no entry for \<open>A\<close> or
  \<open>B\<close> (the immediate dominator of \<open>C\<close> is \<open>Entry\<close>), and the post-dominator map
  sends \<open>C\<close> to \<open>{A, B, Entry}\<close>. This holds for every order in which the set of
  exit blocks is enumerated.
\<close>

theorem diamond_analysis:
  assumes "set_iteration iter"
  shows "\<exists>info. analyze iter diamond emptyInfo = Some info \<and>
           getDomTreeMap info (Some 0) = Some {Some 1, Some 2, Some 3} \<and>
           getDomTreeMap info (Some 1) = None \<and>
           getDomTreeMap info (Some 2) = None \<and>
           getPostDomTreeMap info (Some 3) = Some {Some 1, Some 2, Some 0}"
proof -
  have "exitBBs iter diamond = exitBBs remdups diamond"
    using diamond_exits [OF assms] diamond_exits [OF set_iteration_remdups] by simp
  then have "analyze iter diamond emptyInfo = analyze remdups diamond emptyInfo"
    by (rule analyze_exit_order)
  with diamond_remdups show ?thesis by auto
qed

theorem diamond_analysis_witness:
  "set_iteration remdups \<and>
   (\<exists>info. analyze remdups diamond emptyInfo = Some info \<and>
           getDomTreeMap info (Some 0) = Some {Some 1, Some 2, Some 3} \<and>
           getDomTreeMap info (Some 1) = None \<and>
           getDomTreeMap info (Some 2) = None \<and>
           getPostDomTreeMap info (Some 3) = Some {Some 1, Some 2, Some 0})"
proof -
  have h: "set_iteration remdups" by (simp add: set_iteration_def)
  from h diamond_analysis [OF h] show ?thesis by simp
qed

section \<open>Paths to the root in the vector of immediate dominators\<close>

lemma chain_ne: "chain T j \<noteq> []"
  by (subst chain.simps) simp

lemma chain_hd: "hd (chain T j) = j"
  by (subst chain.simps) simp

lemma chain_self: "j \<in> set (chain T j)"
  by (subst chain.simps) simp

lemma chain_le: "x \<in> set (chain T j) \<Longrightarrow> x \<le> j"
proof (induction T j rule: chain.induct)
  case (1 T j)
  show ?case
  proof (cases "0 < j \<and> j < length T \<and> 0 \<le> T ! j \<and> T ! j < int j")
    case True
    with "1.prems" have "x = j \<or> x \<in> set (chain T (nat (T ! j)))"
      by (subst (asm) chain.simps) simp
    then show ?thesis
    proof
      assume "x = j" then show ?thesis by simp
    next
      assume "x \<in> set (chain T (nat (T ! j)))"
      with "1.IH" True have "x \<le> nat (T ! j)" by simp
      with True show ?thesis by linarith
    qed
  next
    case False
    with "1.prems" have "x = j" by (subst (asm) chain.simps) simp
    then show ?thesis by simp
  qed
qed

lemma chain_zero_eq: "chain T 0 = [0]"
  by (subst chain.simps) simp

lemma valid_parent:
  assumes "valid T" "proc T j" "0 < j"
  shows "0 \<le> T ! j" "T ! j < int j" "nat (T ! j) < j" "proc T (nat (T ! j))"
proof -
  from assms have a: "0 \<le> T ! j \<and> T ! j < int j \<and> T ! nat (T ! j) \<noteq> -1"
    unfolding valid_def proc_def by blast
  then show "0 \<le> T ! j" "T ! j < int j" by simp_all
  from a show "nat (T ! j) < j" by linarith
  with a assms(2) show "proc T (nat (T ! j))" unfolding proc_def by simp
qed

lemma chain_unfold:
  assumes "valid T" "proc T j" "0 < j"
  shows "chain T j = j # chain T (nat (T ! j))"
proof -
  from valid_parent [OF assms] assms(2) have "0 < j \<and> j < length T \<and> 0 \<le> T ! j \<and> T ! j < int j"
    using assms(3) by (simp add: proc_def)
  then show ?thesis by (subst chain.simps) simp
qed

lemma proc_zero: "valid T \<Longrightarrow> proc T 0"
  by (simp add: valid_def proc_def)

lemma chain_proc:
  assumes "valid T"
  shows "proc T j \<Longrightarrow> x \<in> set (chain T j) \<Longrightarrow> proc T x"
proof (induction j rule: less_induct)
  case (less j)
  show ?case
  proof (cases "j = 0")
    case True
    with less.prems show ?thesis by (simp add: chain_zero_eq)
  next
    case False
    then have j: "0 < j" by simp
    from chain_unfold [OF assms less.prems(1) j] less.prems(2)
    have "x = j \<or> x \<in> set (chain T (nat (T ! j)))" by simp
    then show ?thesis
    proof
      assume "x = j" with less.prems show ?thesis by simp
    next
      assume "x \<in> set (chain T (nat (T ! j)))"
      with less.IH [OF valid_parent(3) [OF assms less.prems(1) j] valid_parent(4) [OF assms less.prems(1) j]]
      show ?thesis by simp
    qed
  qed
qed

lemma chain_zero:
  assumes "valid T"
  shows "proc T j \<Longrightarrow> 0 \<in> set (chain T j)"
proof (induction j rule: less_induct)
  case (less j)
  show ?case
  proof (cases "j = 0")
    case True
    then show ?thesis by (simp add: chain_zero_eq)
  next
    case False
    then have j: "0 < j" by simp
    from less.IH [OF valid_parent(3) [OF assms less.prems j] valid_parent(4) [OF assms less.prems j]]
    show ?thesis by (simp add: chain_unfold [OF assms less.prems j])
  qed
qed

lemma chain_suffix:
  assumes "valid T"
  shows "proc T j \<Longrightarrow> a \<in> set (chain T j) \<Longrightarrow> set (chain T a) = {x \<in> set (chain T j). x \<le> a}"
proof (induction j rule: less_induct)
  case (less j)
  show ?case
  proof (cases "a = j")
    case True
    then show ?thesis using chain_le [of _ T j] by auto
  next
    case False
    with less.prems(2) have j: "0 < j" by (cases "j = 0") (auto simp: chain_zero_eq)
    let ?p = "nat (T ! j)"
    have cu: "chain T j = j # chain T ?p" by (rule chain_unfold [OF assms less.prems(1) j])
    with less.prems(2) False have ap: "a \<in> set (chain T ?p)" by simp
    have pj: "?p < j" by (rule valid_parent(3) [OF assms less.prems(1) j])
    from less.IH [OF pj valid_parent(4) [OF assms less.prems(1) j] ap]
    have "set (chain T a) = {x \<in> set (chain T ?p). x \<le> a}" .
    moreover from chain_le [OF ap] pj have "\<not> j \<le> a" by simp
    ultimately show ?thesis by (auto simp: cu)
  qed
qed

lemma chain_distinct:
  assumes "valid T"
  shows "proc T j \<Longrightarrow> distinct (chain T j)"
proof (induction j rule: less_induct)
  case (less j)
  show ?case
  proof (cases "j = 0")
    case True
    then show ?thesis by (simp add: chain_zero_eq)
  next
    case False
    then have j: "0 < j" by simp
    let ?p = "nat (T ! j)"
    have pj: "?p < j" by (rule valid_parent(3) [OF assms less.prems j])
    from less.IH [OF pj valid_parent(4) [OF assms less.prems j]]
    have "distinct (chain T ?p)" .
    moreover have "j \<notin> set (chain T ?p)" using chain_le [of j T ?p] pj by auto
    ultimately show ?thesis by (simp add: chain_unfold [OF assms less.prems j])
  qed
qed

lemma chain_subset:
  assumes "valid T" "proc T j" "a \<in> set (chain T j)"
  shows "set (chain T a) \<subseteq> set (chain T j)"
  using chain_suffix [OF assms] by auto

lemma chain_lt_length:
  assumes "valid T" "proc T j" "x \<in> set (chain T j)"
  shows "x < length T"
  using chain_proc [OF assms] by (simp add: proc_def)

section \<open>The walks of the intersection step\<close>

lemma climb_spec:
  assumes "valid T"
  shows "proc T a \<Longrightarrow>
    \<exists>a'. climb T (int a) (int b) = Some (int a') \<and> a' \<in> set (chain T a) \<and> a' \<le> b \<and>
          (\<forall>x\<in>set (chain T a). x \<le> b \<longrightarrow> x \<le> a')"
proof (induction a rule: less_induct)
  case (less a)
  show ?case
  proof (cases "b < a")
    case True
    then have a0: "0 < a" by simp
    let ?p = "nat (T ! a)"
    have pa: "?p < a" and pp: "proc T ?p" and p0: "0 \<le> T ! a"
      using valid_parent [OF assms less.prems a0] by simp_all
    from less.IH [OF pa pp] obtain a' where
      c: "climb T (int ?p) (int b) = Some (int a')" and m: "a' \<in> set (chain T ?p)"
      and le: "a' \<le> b" and mx: "\<forall>x\<in>set (chain T ?p). x \<le> b \<longrightarrow> x \<le> a'" by blast
    have cu: "chain T a = a # chain T ?p" by (rule chain_unfold [OF assms less.prems a0])
    from less.prems have al: "a < length T" by (simp add: proc_def)
    have "climb T (int a) (int b) = climb T (T ! a) (int b)"
      using True al by (subst climb.simps) simp
    also have "\<dots> = Some (int a')" using c p0 by simp
    finally have "climb T (int a) (int b) = Some (int a')" .
    moreover have "a' \<in> set (chain T a)" using m cu by simp
    moreover have "\<forall>x\<in>set (chain T a). x \<le> b \<longrightarrow> x \<le> a'" using mx cu True by auto
    ultimately show ?thesis using le by blast
  next
    case False
    then have "climb T (int a) (int b) = Some (int a)" by (subst climb.simps) simp
    moreover have "\<forall>x\<in>set (chain T a). x \<le> b \<longrightarrow> x \<le> a" using chain_le by blast
    ultimately show ?thesis using False chain_self [of a T] by auto
  qed
qed

lemma climb_inter:
  assumes "valid T" "proc T a" "a' \<in> set (chain T a)" "a' \<le> b"
    "\<forall>x\<in>set (chain T a). x \<le> b \<longrightarrow> x \<le> a'" "\<forall>x\<in>S. x \<le> b"
  shows "set (chain T a') \<inter> S = set (chain T a) \<inter> S"
proof -
  have "set (chain T a') = {x \<in> set (chain T a). x \<le> a'}"
    by (rule chain_suffix [OF assms(1,2,3)])
  with assms(4,5,6) show ?thesis by force
qed

lemma intersect_spec:
  assumes "valid T"
  shows "proc T a \<Longrightarrow> proc T b \<Longrightarrow>
    \<exists>c. intersect T (int a) (int b) = Some (int c) \<and> proc T c \<and>
        set (chain T c) = set (chain T a) \<inter> set (chain T b)"
proof (induction "a + b" arbitrary: a b rule: less_induct)
  case less
  show ?case
  proof (cases "a = b")
    case True
    then have "intersect T (int a) (int b) = Some (int a)" by (subst intersect.simps) simp
    with True less.prems show ?thesis by auto
  next
    case False
    from climb_spec [OF assms less.prems(1), of b] obtain a' where
      c1: "climb T (int a) (int b) = Some (int a')" and m1: "a' \<in> set (chain T a)"
      and le1: "a' \<le> b" and mx1: "\<forall>x\<in>set (chain T a). x \<le> b \<longrightarrow> x \<le> a'" by blast
    from climb_spec [OF assms less.prems(2), of a'] obtain b' where
      c2: "climb T (int b) (int a') = Some (int b')" and m2: "b' \<in> set (chain T b)"
      and le2: "b' \<le> a'" and mx2: "\<forall>x\<in>set (chain T b). x \<le> a' \<longrightarrow> x \<le> b'" by blast
    have pa': "proc T a'" by (rule chain_proc [OF assms less.prems(1) m1])
    have pb': "proc T b'" by (rule chain_proc [OF assms less.prems(2) m2])
    have a'a: "a' \<le> a" by (rule chain_le [OF m1])
    have b'b: "b' \<le> b" by (rule chain_le [OF m2])
    have dec: "a' + b' < a + b"
    proof (cases "b < a")
      case True
      with le1 have "a' < a" by simp
      with b'b show ?thesis by simp
    next
      case False
      with \<open>a \<noteq> b\<close> have ab: "a < b" by simp
      from le2 a'a ab have "b' < b" by simp
      with a'a show ?thesis by simp
    qed
    from less.hyps [OF dec pa' pb'] obtain c where
      i: "intersect T (int a') (int b') = Some (int c)" and pc: "proc T c"
      and sc: "set (chain T c) = set (chain T a') \<inter> set (chain T b')" by blast
    have e1: "set (chain T a') \<inter> set (chain T b) = set (chain T a) \<inter> set (chain T b)"
      by (rule climb_inter [OF assms less.prems(1) m1 le1 mx1]) (simp add: chain_le)
    have e2: "set (chain T b') \<inter> set (chain T a') = set (chain T b) \<inter> set (chain T a')"
      by (rule climb_inter [OF assms less.prems(2) m2 le2 mx2]) (simp add: chain_le)
    have "intersect T (int a) (int b) = Some (int c)"
      using False c1 c2 i by (subst intersect.simps) simp
    moreover have "set (chain T c) = set (chain T a) \<inter> set (chain T b)"
      using sc e1 e2 by blast
    ultimately show ?thesis using pc by blast
  qed
qed

section \<open>The loop over the neighbours\<close>

lemma absorb_fold_some:
  assumes "valid T"
  shows "\<forall>p\<in>set ps. p < length T \<Longrightarrow> proc T c \<Longrightarrow>
    \<exists>c'. foldM (absorb T) ps (int c) = Some (int c') \<and> proc T c' \<and>
         set (chain T c') = set (chain T c) \<inter> (\<Inter>p\<in>{p\<in>set ps. proc T p}. set (chain T p))"
proof (induction ps arbitrary: c)
  case Nil
  then show ?case by simp
next
  case (Cons p ps)
  show ?case
  proof (cases "proc T p")
    case True
    from intersect_spec [OF assms Cons.prems(2) True] obtain d where
      i: "intersect T (int c) (int p) = Some (int d)" and pd: "proc T d"
      and sd: "set (chain T d) = set (chain T c) \<inter> set (chain T p)" by blast
    from True have "absorb T p (int c) = Some (int d)"
      using i by (simp add: absorb_def proc_def)
    moreover from Cons.IH [OF _ pd] Cons.prems(1) obtain c' where
      "foldM (absorb T) ps (int d) = Some (int c')" "proc T c'"
      "set (chain T c') = set (chain T d) \<inter> (\<Inter>p\<in>{p\<in>set ps. proc T p}. set (chain T p))"
      by auto
    ultimately show ?thesis using sd True by auto
  next
    case False
    with Cons.prems(1) have "absorb T p (int c) = Some (int c)"
      by (simp add: absorb_def proc_def)
    moreover from Cons.IH [OF _ Cons.prems(2)] Cons.prems(1) obtain c' where
      "foldM (absorb T) ps (int c) = Some (int c')" "proc T c'"
      "set (chain T c') = set (chain T c) \<inter> (\<Inter>p\<in>{p\<in>set ps. proc T p}. set (chain T p))"
      by auto
    ultimately show ?thesis using False by auto
  qed
qed

lemma absorb_fold_none:
  "\<forall>p\<in>set ps. p < length T \<and> \<not> proc T p \<Longrightarrow> foldM (absorb T) ps (-1) = Some (-1)"
  by (induction ps) (simp_all add: absorb_def proc_def)

lemma absorb_fold_init:
  assumes "valid T"
  shows "\<forall>p\<in>set ps. p < length T \<Longrightarrow> \<exists>p\<in>set ps. proc T p \<Longrightarrow>
    \<exists>c. foldM (absorb T) ps (-1) = Some (int c) \<and> proc T c \<and>
        set (chain T c) = (\<Inter>p\<in>{p\<in>set ps. proc T p}. set (chain T p))"
proof (induction ps)
  case Nil
  then show ?case by simp
next
  case (Cons p ps)
  show ?case
  proof (cases "proc T p")
    case True
    then have a: "absorb T p (-1) = Some (int p)" by (simp add: absorb_def proc_def)
    from absorb_fold_some [OF assms _ True, of ps] Cons.prems(1) obtain c' where
      "foldM (absorb T) ps (int p) = Some (int c')" "proc T c'"
      "set (chain T c') = set (chain T p) \<inter> (\<Inter>p\<in>{p\<in>set ps. proc T p}. set (chain T p))"
      by auto
    with a True show ?thesis by auto
  next
    case False
    with Cons.prems(1) have a: "absorb T p (-1) = Some (-1)" by (simp add: absorb_def proc_def)
    from False Cons.prems(2) have "\<exists>p\<in>set ps. proc T p" by auto
    from Cons.IH [OF _ this] Cons.prems(1) obtain c where
      "foldM (absorb T) ps (-1) = Some (int c)" "proc T c"
      "set (chain T c) = (\<Inter>p\<in>{p\<in>set ps. proc T p}. set (chain T p))" by auto
    with a False show ?thesis by auto
  qed
qed

section \<open>Changing one slot\<close>

lemma chain_stop:
  "\<not> (0 < j \<and> j < length T \<and> 0 \<le> T ! j \<and> T ! j < int j) \<Longrightarrow> chain T j = [j]"
  by (subst chain.simps) auto

lemma chain_step:
  "0 < j \<and> j < length T \<and> 0 \<le> T ! j \<and> T ! j < int j \<Longrightarrow> chain T j = j # chain T (nat (T ! j))"
  by (subst chain.simps) auto

lemma chain_upd_notin: "i \<notin> set (chain T j) \<Longrightarrow> chain (T[i := v]) j = chain T j"
proof (induction T j rule: chain.induct)
  case (1 T j)
  from "1.prems" chain_self [of j T] have ji: "j \<noteq> i" by auto
  then have e: "T[i := v] ! j = T ! j" by simp
  show ?case
  proof (cases "0 < j \<and> j < length T \<and> 0 \<le> T ! j \<and> T ! j < int j")
    case True
    then have cu: "chain T j = j # chain T (nat (T ! j))" by (subst chain.simps) simp
    with "1.prems" have "i \<notin> set (chain T (nat (T ! j)))" by simp
    with "1.IH" True have "chain (T[i := v]) (nat (T ! j)) = chain T (nat (T ! j))" by simp
    moreover have "chain (T[i := v]) j = j # chain (T[i := v]) (nat (T ! j))"
      using True e by (subst chain.simps) simp
    ultimately show ?thesis using cu by simp
  next
    case False
    then have "chain T j = [j]" by (rule chain_stop)
    moreover have "chain (T[i := v]) j = [j]" using False e by (intro chain_stop) simp
    ultimately show ?thesis by simp
  qed
qed

lemma chain_upd_below: "j < i \<Longrightarrow> chain (T[i := v]) j = chain T j"
  using chain_le [of i T j] by (intro chain_upd_notin) auto

lemma chain_upd_self:
  assumes "0 < i" "i < length T" "c < i"
  shows "chain (T[i := int c]) i = i # chain T c"
proof -
  have "chain (T[i := int c]) i = i # chain (T[i := int c]) c"
    using assms by (subst chain.simps) simp
  with chain_upd_below [OF assms(3)] show ?thesis by simp
qed

lemma chain_upd_in:
  assumes "valid T" "0 < i" "i < length T" "c < i"
  shows "proc T j \<Longrightarrow> i \<in> set (chain T j) \<Longrightarrow>
    set (chain (T[i := int c]) j) = {x \<in> set (chain T j). i \<le> x} \<union> set (chain T c)"
proof (induction j rule: less_induct)
  case (less j)
  show ?case
  proof (cases "j = i")
    case True
    have "{x \<in> set (chain T i). i \<le> x} = {i}"
      by (auto dest: chain_le simp: chain_self)
    moreover have "set (chain (T[i := int c]) i) = insert i (set (chain T c))"
      by (simp add: chain_upd_self [OF assms(2,3,4)])
    ultimately show ?thesis using True by simp
  next
    case False
    from chain_le [OF less.prems(2)] False have ij: "i < j" by simp
    then have j0: "0 < j" by simp
    let ?p = "nat (T ! j)"
    have cu: "chain T j = j # chain T ?p" by (rule chain_unfold [OF assms(1) less.prems(1) j0])
    with less.prems(2) False have ip: "i \<in> set (chain T ?p)" by simp
    have pj: "?p < j" and pp: "proc T ?p" and p0: "0 \<le> T ! j" and pl: "T ! j < int j"
      using valid_parent [OF assms(1) less.prems(1) j0] by simp_all
    from less.prems(1) have jl: "j < length T" by (simp add: proc_def)
    have e: "T[i := int c] ! j = T ! j" using False by simp
    have "chain (T[i := int c]) j = j # chain (T[i := int c]) (nat (T[i := int c] ! j))"
      by (rule chain_step) (simp add: e j0 jl p0 pl)
    then have c': "set (chain (T[i := int c]) j) = insert j (set (chain (T[i := int c]) ?p))"
      by (simp add: e)
    from less.IH [OF pj pp ip]
    have ih: "set (chain (T[i := int c]) ?p) = {x \<in> set (chain T ?p). i \<le> x} \<union> set (chain T c)" .
    have "{x \<in> set (chain T j). i \<le> x} = insert j {x \<in> set (chain T ?p). i \<le> x}"
      using ij by (auto simp: cu)
    with c' ih show ?thesis by simp
  qed
qed

lemma valid_upd:
  assumes "valid T" "0 < i" "i < length T" "c < i" "proc T c"
  shows "valid (T[i := int c])"
  unfolding valid_def
proof (intro conjI allI impI)
  from assms show "0 < length (T[i := int c])" by (simp add: valid_def)
  from assms show "T[i := int c] ! 0 = 0" by (simp add: valid_def)
next
  fix j
  assume a: "0 < j \<and> j < length (T[i := int c]) \<and> T[i := int c] ! j \<noteq> - 1"
  show "0 \<le> T[i := int c] ! j"  "T[i := int c] ! j < int j" "T[i := int c] ! nat (T[i := int c] ! j) \<noteq> - 1"
  proof -
    have "0 \<le> T[i := int c] ! j \<and> T[i := int c] ! j < int j \<and> T[i := int c] ! nat (T[i := int c] ! j) \<noteq> - 1"
    proof (cases "j = i")
      case True
      with assms show ?thesis by (simp add: proc_def)
    next
      case False
      with a have pj: "proc T j" and j0: "0 < j" by (simp_all add: proc_def)
      from valid_parent [OF assms(1) pj j0] have
        "0 \<le> T ! j" "T ! j < int j" "proc T (nat (T ! j))" by simp_all
      with False assms(3) show ?thesis
        by (cases "nat (T ! j) = i") (simp_all add: proc_def)
    qed
    then show "0 \<le> T[i := int c] ! j"  "T[i := int c] ! j < int j"
      "T[i := int c] ! nat (T[i := int c] ! j) \<noteq> - 1" by simp_all
  qed
qed

lemma proc_upd:
  assumes "i < length T"
  shows "proc (T[i := int c]) j \<longleftrightarrow> proc T j \<or> j = i"
  using assms by (cases "j = i") (simp_all add: proc_def)

lemma chain_length_le:
  assumes "valid T" "proc T j"
  shows "length (chain T j) \<le> Suc j"
proof -
  have "set (chain T j) \<subseteq> {..j}" using chain_le [of _ T j] by auto
  then have "card (set (chain T j)) \<le> card {..j}" by (intro card_mono) simp_all
  with chain_distinct [OF assms] show ?thesis by (simp add: distinct_card)
qed

lemma chain_length_mono:
  assumes "distinct xs" "distinct ys" "set xs \<subseteq> set ys"
  shows "length xs \<le> length ys"
proof -
  from assms(3) have "card (set xs) \<le> card (set ys)" by (intro card_mono) simp_all
  with assms(1,2) show ?thesis by (simp add: distinct_card)
qed

lemma fwd_le: "fwd g a x \<Longrightarrow> a \<le> x"
  by (induction rule: fwd.induct) simp_all

section \<open>One pass of the iteration\<close>

lemma fwd_last:
  assumes "fwd g a x" "a \<noteq> x"
  obtains p where "fwd g a p" "p \<in> set (g x)" "p < x"
  using assms by (cases rule: fwd.cases) auto

text \<open>
  Below the position of the pass, an index on the way to the root from \<open>x\<close> that is not
  above \<open>a\<close> is on the way to the root from \<open>a\<close>, when \<open>a\<close> reaches \<open>x\<close> along
  increasing indices.
\<close>

lemma fwd_chain:
  assumes "valid T" "inv_IF g T i" "i \<le> length T"
  shows "fwd g a x \<Longrightarrow> x < i \<Longrightarrow> y \<in> set (chain T x) \<Longrightarrow> y \<le> a \<Longrightarrow> y \<in> set (chain T a)"
proof (induction rule: fwd.induct)
  case fwd_refl
  then show ?case by simp
next
  case (fwd_step p x)
  from fwd_step.prems(1) assms(3) have xl: "x < length T" by simp
  from fwd_step.hyps(3) have x0: "0 < x" by simp
  from assms(2) fwd_step.prems(1) xl x0 fwd_step.hyps(2,3)
  have px: "proc T x" and par: "nat (T ! x) \<in> set (chain T p)"
    unfolding inv_IF_def by blast+
  from fwd_step.hyps(3) fwd_step.prems(1) have pi: "p < i" by simp
  with assms(2,3) have pp: "proc T p" unfolding inv_IF_def by simp
  from fwd_le [OF fwd_step.hyps(1)] have ap: "a \<le> p" .
  have cu: "chain T x = x # chain T (nat (T ! x))" by (rule chain_unfold [OF assms(1) px x0])
  from fwd_step.prems(3) ap fwd_step.hyps(3) have "y \<noteq> x" by simp
  with fwd_step.prems(2) cu have "y \<in> set (chain T (nat (T ! x)))" by simp
  with chain_subset [OF assms(1) pp par] have "y \<in> set (chain T p)" by blast
  from fwd_step.IH [OF pi this fwd_step.prems(3)] show ?case .
qed

lemma visit_candidate:
  assumes g: "rpo_graph n g" and len: "length T = n" and inv: "chk_inv g T i"
    and i0: "0 < i" and il: "i < n"
  obtains c where "foldM (absorb T) (g i) (-1) = Some (int c)" "proc T c" "c < i"
    "set (chain T c) = (\<Inter>p\<in>{p\<in>set (g i). proc T p}. set (chain T p))"
    "\<forall>p\<in>set (g i). proc T p \<longrightarrow> c \<in> set (chain T p)"
proof -
  from inv have v: "valid T" and IF: "inv_IF g T i" by (simp_all add: chk_inv_def)
  from g i0 il obtain p0 where p0: "p0 \<in> set (g i)" "p0 < i" unfolding rpo_graph_def by blast
  with IF len il have pp0: "proc T p0" unfolding inv_IF_def by simp
  from g il len have rng: "\<forall>p\<in>set (g i). p < length T" unfolding rpo_graph_def by blast
  from absorb_fold_init [OF v rng] p0(1) pp0 obtain c where
    c: "foldM (absorb T) (g i) (-1) = Some (int c)" "proc T c"
    "set (chain T c) = (\<Inter>p\<in>{p\<in>set (g i). proc T p}. set (chain T p))" by blast
  have mem: "\<forall>p\<in>set (g i). proc T p \<longrightarrow> c \<in> set (chain T p)"
    using c(3) chain_self [of c T] by blast
  with p0 pp0 have "c \<in> set (chain T p0)" by blast
  from chain_le [OF this] p0(2) have "c < i" by simp
  with c mem that show ?thesis by blast
qed

lemma visit_keep:
  assumes g: "rpo_graph n g" and len: "length T = n" and inv: "chk_inv g T i"
    and i0: "0 < i" and il: "i < n"
    and c: "proc T c" "\<forall>p\<in>set (g i). proc T p \<longrightarrow> c \<in> set (chain T p)"
    and same: "T ! i = int c"
  shows "chk_inv g T (Suc i)"
proof -
  from inv have IF: "inv_IF g T i" by (simp add: chk_inv_def)
  have "inv_IF g T (Suc i)"
    unfolding inv_IF_def
  proof (intro allI impI)
    fix j assume j: "j < Suc i \<and> j < length T"
    show "proc T j \<and> (0 < j \<longrightarrow> (\<forall>p\<in>set (g j). p < j \<longrightarrow> nat (T ! j) \<in> set (chain T p)))"
    proof (cases "j = i")
      case False
      with j IF show ?thesis unfolding inv_IF_def by simp
    next
      case True
      have "proc T i" using same il len by (simp add: proc_def)
      moreover have "\<forall>p\<in>set (g i). p < i \<longrightarrow> nat (T ! i) \<in> set (chain T p)"
      proof (intro ballI impI)
        fix p assume p: "p \<in> set (g i)" "p < i"
        with IF len il have "proc T p" unfolding inv_IF_def by simp
        with c(2) p(1) same show "nat (T ! i) \<in> set (chain T p)" by simp
      qed
      ultimately show ?thesis using True by simp
    qed
  qed
  with inv show ?thesis by (simp add: chk_inv_def)
qed


text \<open>
  When the slot of \<open>i\<close> is processed and differs from the new candidate \<open>c\<close>, the
  candidate lies strictly above the old slot, on its way to the root.
\<close>

lemma candidate_above:
  assumes g: "rpo_graph n g" and len: "length T = n" and inv: "chk_inv g T i"
    and i0: "0 < i" and il: "i < n"
    and c: "proc T c" "c < i" "\<forall>p\<in>set (g i). proc T p \<longrightarrow> c \<in> set (chain T p)"
    and diff: "T ! i \<noteq> int c" and pi: "proc T i"
  shows "c \<in> set (chain T (nat (T ! i)))" "c < nat (T ! i)"
proof -
  from inv have v: "valid T" and KF: "inv_KF g T" and IF: "inv_IF g T i" and IN: "inv_IN g T"
    by (simp_all add: chk_inv_def)
  let ?o = "nat (T ! i)"
  have o0: "0 \<le> T ! i" and oi: "?o < i" and po: "proc T ?o"
    using valid_parent [OF v pi i0] by simp_all
  from o0 diff have oc: "?o \<noteq> c" by auto
  have le: "c \<le> ?o"
  proof (rule ccontr)
    assume "\<not> c \<le> ?o"
    then have "?o < c" by simp
    with IN i0 pi c(2) obtain p where "p \<in> set (g i)" "proc T p" "c \<notin> set (chain T p)"
      unfolding inv_IN_def by blast
    with c(3) show False by blast
  qed
  with oc show lt: "c < ?o" by simp
  have "?o \<in> set (chain T i)" by (simp add: chain_unfold [OF v pi i0] chain_self)
  with KF pi have "fwd g ?o i" unfolding inv_KF_def by blast
  moreover from oi have "?o \<noteq> i" by simp
  ultimately obtain p1 where p1: "fwd g ?o p1" "p1 \<in> set (g i)" "p1 < i"
    by (rule fwd_last)
  from IF p1(3) il len have "proc T p1" unfolding inv_IF_def by simp
  with c(3) p1(2) have "c \<in> set (chain T p1)" by blast
  from fwd_chain [OF v IF _ p1(1) p1(3) this le] il len
  show "c \<in> set (chain T ?o)" by simp
qed

lemma chains_shrink:
  assumes g: "rpo_graph n g" and len: "length T = n" and inv: "chk_inv g T i"
    and i0: "0 < i" and il: "i < n"
    and c: "proc T c" "c < i" "\<forall>p\<in>set (g i). proc T p \<longrightarrow> c \<in> set (chain T p)"
    and diff: "T ! i \<noteq> int c" and pj: "proc T j"
  shows "set (chain (T[i := int c]) j) \<subseteq> set (chain T j)"
proof (cases "i \<in> set (chain T j)")
  case False
  then show ?thesis by (simp add: chain_upd_notin)
next
  case True
  from inv have v: "valid T" by (simp add: chk_inv_def)
  from chain_proc [OF v pj True] have pi: "proc T i" .
  let ?o = "nat (T ! i)"
  have po: "proc T ?o" using valid_parent [OF v pi i0] by simp
  from candidate_above [OF g len inv i0 il c diff pi] have co: "c \<in> set (chain T ?o)" by simp
  have "set (chain T c) \<subseteq> set (chain T ?o)" by (rule chain_subset [OF v po co])
  also have "set (chain T ?o) \<subseteq> set (chain T i)" by (auto simp: chain_unfold [OF v pi i0])
  also have "set (chain T i) \<subseteq> set (chain T j)" by (rule chain_subset [OF v pj True])
  finally have "set (chain T c) \<subseteq> set (chain T j)" .
  moreover from il len have "i < length T" by simp
  from chain_upd_in [OF v i0 this c(2) pj True]
  have "set (chain (T[i := int c]) j) = {x \<in> set (chain T j). i \<le> x} \<union> set (chain T c)" .
  ultimately show ?thesis by auto
qed

lemma visit_change_inv:
  assumes g: "rpo_graph n g" and len: "length T = n" and inv: "chk_inv g T i"
    and i0: "0 < i" and il: "i < n"
    and c: "proc T c" "c < i" "\<forall>p\<in>set (g i). proc T p \<longrightarrow> c \<in> set (chain T p)"
    and cmax: "set (chain T c) = (\<Inter>p\<in>{p\<in>set (g i). proc T p}. set (chain T p))"
    and diff: "T ! i \<noteq> int c"
  shows "chk_inv g (T[i := int c]) (Suc i)"
proof -
  let ?T = "T[i := int c]"
  from inv have v: "valid T" and KF: "inv_KF g T" and IF: "inv_IF g T i" and IN: "inv_IN g T"
    by (simp_all add: chk_inv_def)
  from il len have ilT: "i < length T" by simp
  have v': "valid ?T" by (rule valid_upd [OF v i0 ilT c(2,1)])
  have pr: "\<And>j. proc ?T j \<longleftrightarrow> proc T j \<or> j = i" by (rule proc_upd [OF ilT])
  have sub: "\<And>j. proc T j \<Longrightarrow> set (chain ?T j) \<subseteq> set (chain T j)"
    by (rule chains_shrink [OF g len inv i0 il c diff])
  have ci: "chain ?T i = i # chain T c" by (rule chain_upd_self [OF i0 ilT c(2)])
  have below: "\<And>j. j < i \<Longrightarrow> chain ?T j = chain T j" by (rule chain_upd_below)
  from g i0 il obtain p0 where p0: "p0 \<in> set (g i)" "p0 < i" unfolding rpo_graph_def by blast
  with IF len il have pp0: "proc T p0" unfolding inv_IF_def by simp
  have KF': "inv_KF g ?T"
    unfolding inv_KF_def
  proof (intro allI impI)
    fix x a assume xa: "proc ?T x \<and> a \<in> set (chain ?T x)"
    show "fwd g a x"
    proof (cases "x = i")
      case True
      with xa ci have "a = i \<or> a \<in> set (chain T c)" by simp
      then show ?thesis
      proof
        assume "a = i" with True show ?thesis by (simp add: fwd_refl)
      next
        assume a: "a \<in> set (chain T c)"
        from c(3) p0(1) pp0 have "c \<in> set (chain T p0)" by blast
        from chain_subset [OF v pp0 this] a have "a \<in> set (chain T p0)" by blast
        with KF pp0 have "fwd g a p0" unfolding inv_KF_def by blast
        from fwd_step [OF this p0] True show ?thesis by simp
      qed
    next
      case False
      with xa pr have px: "proc T x" by simp
      from sub [OF px] xa have "a \<in> set (chain T x)" by blast
      with KF px show ?thesis unfolding inv_KF_def by blast
    qed
  qed
  have IF': "inv_IF g ?T (Suc i)"
    unfolding inv_IF_def
  proof (intro allI impI)
    fix j assume j: "j < Suc i \<and> j < length ?T"
    show "proc ?T j \<and> (0 < j \<longrightarrow> (\<forall>p\<in>set (g j). p < j \<longrightarrow> nat (?T ! j) \<in> set (chain ?T p)))"
    proof (cases "j = i")
      case False
      with j have ji: "j < i" and jl: "j < length T" by simp_all
      with IF have a: "proc T j" "0 < j \<longrightarrow> (\<forall>p\<in>set (g j). p < j \<longrightarrow> nat (T ! j) \<in> set (chain T p))"
        unfolding inv_IF_def by simp_all
      have "\<forall>p\<in>set (g j). p < j \<longrightarrow> chain ?T p = chain T p" using below ji by simp
      with a False pr show ?thesis by simp
    next
      case True
      have "\<forall>p\<in>set (g i). p < i \<longrightarrow> nat (?T ! i) \<in> set (chain ?T p)"
      proof (intro ballI impI)
        fix p assume p: "p \<in> set (g i)" "p < i"
        with IF len il have "proc T p" unfolding inv_IF_def by simp
        with c(3) p(1) have "c \<in> set (chain T p)" by blast
        with below [OF p(2)] ilT show "nat (?T ! i) \<in> set (chain ?T p)" by simp
      qed
      with True pr show ?thesis by simp
    qed
  qed
  have IN': "inv_IN g ?T"
    unfolding inv_IN_def
  proof (intro allI impI)
    fix j x assume a: "0 < j \<and> proc ?T j \<and> nat (?T ! j) < x \<and> x < j"
    show "\<exists>p\<in>set (g j). proc ?T p \<and> x \<notin> set (chain ?T p)"
    proof (cases "j = i")
      case True
      with a ilT have cx: "c < x" and xi: "x < i" by simp_all
      have "x \<notin> set (chain T c)" using chain_le [of x T c] cx by auto
      with cmax obtain p where p: "p \<in> set (g i)" "proc T p" "x \<notin> set (chain T p)" by auto
      from sub [OF p(2)] p(3) have "x \<notin> set (chain ?T p)" by blast
      with p pr True show ?thesis by blast
    next
      case False
      with a pr have "0 < j \<and> proc T j \<and> nat (T ! j) < x \<and> x < j" by simp
      with IN obtain p where p: "p \<in> set (g j)" "proc T p" "x \<notin> set (chain T p)"
        unfolding inv_IN_def by blast
      from sub [OF p(2)] p(3) have "x \<notin> set (chain ?T p)" by blast
      with p pr show ?thesis by blast
    qed
  qed
  from v' KF' IF' IN' show ?thesis by (simp add: chk_inv_def)
qed


lemma visit_change_depth:
  assumes g: "rpo_graph n g" and len: "length T = n" and inv: "chk_inv g T i"
    and i0: "0 < i" and il: "i < n"
    and c: "proc T c" "c < i" "\<forall>p\<in>set (g i). proc T p \<longrightarrow> c \<in> set (chain T p)"
    and diff: "T ! i \<noteq> int c"
  shows "depth_sum (T[i := int c]) < depth_sum T"
proof -
  let ?T = "T[i := int c]"
  let ?w = "\<lambda>T j. if T ! j = -1 then length T + 1 else length (chain T j)"
  from inv have v: "valid T" by (simp add: chk_inv_def)
  from il len have ilT: "i < length T" by simp
  have v': "valid ?T" by (rule valid_upd [OF v i0 ilT c(2,1)])
  have pr: "\<And>j. proc ?T j \<longleftrightarrow> proc T j \<or> j = i" by (rule proc_upd [OF ilT])
  have sub: "\<And>j. proc T j \<Longrightarrow> set (chain ?T j) \<subseteq> set (chain T j)"
    by (rule chains_shrink [OF g len inv i0 il c diff])
  have ci: "chain ?T i = i # chain T c" by (rule chain_upd_self [OF i0 ilT c(2)])
  have le: "\<forall>j\<in>{..<length T}. ?w ?T j \<le> ?w T j"
  proof
    fix j assume "j \<in> {..<length T}"
    then have jl: "j < length T" by simp
    show "?w ?T j \<le> ?w T j"
    proof (cases "T ! j = -1")
      case True
      show ?thesis
      proof (cases "j = i")
        case False
        with True show ?thesis by simp
      next
        case ji: True
        from chain_length_le [OF v c(1)] c(2) il len have "length (chain T c) < length T" by simp
        with True ji ci ilT show ?thesis by simp
      qed
    next
      case False
      with jl have pj: "proc T j" by (simp add: proc_def)
      with pr have pj': "proc ?T j" by simp
      then have ne: "?T ! j \<noteq> -1" by (simp add: proc_def)
      have "length (chain ?T j) \<le> length (chain T j)"
        by (rule chain_length_mono [OF chain_distinct [OF v' pj'] chain_distinct [OF v pj] sub [OF pj]])
      with False ne show ?thesis by simp
    qed
  qed
  have lt: "?w ?T i < ?w T i"
  proof (cases "T ! i = -1")
    case True
    from chain_length_le [OF v c(1)] c(2) il len have "length (chain T c) < length T" by simp
    with True ci ilT show ?thesis by simp
  next
    case False
    with ilT have pi: "proc T i" by (simp add: proc_def)
    let ?o = "nat (T ! i)"
    have po: "proc T ?o" using valid_parent [OF v pi i0] by simp
    from candidate_above [OF g len inv i0 il c diff pi]
    have co: "c \<in> set (chain T ?o)" and lt: "c < ?o" by simp_all
    have "set (chain T c) \<subseteq> set (chain T ?o)" by (rule chain_subset [OF v po co])
    moreover have "?o \<notin> set (chain T c)" using chain_le [of ?o T c] lt by auto
    ultimately have "set (chain T c) \<subset> set (chain T ?o)" using chain_self [of ?o T] by blast
    then have "card (set (chain T c)) < card (set (chain T ?o))" by (intro psubset_card_mono) simp_all
    then have "length (chain T c) < length (chain T ?o)"
      using chain_distinct [OF v c(1)] chain_distinct [OF v po] by (simp add: distinct_card)
    moreover have "chain T i = i # chain T ?o" by (rule chain_unfold [OF v pi i0])
    ultimately show ?thesis using False ci ilT by simp
  qed
  have "sum (?w ?T) {..<length T} < sum (?w T) {..<length T}"
  proof (rule sum_strict_mono_ex1)
    show "finite {..<length T}" by simp
    show "\<forall>j\<in>{..<length T}. ?w ?T j \<le> ?w T j" by (rule le)
    from ilT have "i \<in> {..<length T}" by simp
    from this lt show "\<exists>a\<in>{..<length T}. ?w ?T a < ?w T a" by (rule rev_bexI)
  qed
  then show ?thesis by (simp add: depth_sum_def)
qed

lemma visit_idx_step:
  assumes g: "rpo_graph n g" and len: "length T = n" and inv: "chk_inv g T i" and il: "i < n"
  shows "\<exists>T' ch'. visit_idx g i (T, ch) = Some (T', ch') \<and> length T' = n \<and>
           chk_inv g T' (Suc i) \<and>
           ((T' = T \<and> ch' = ch \<and> fix_at g T i) \<or> (ch' \<and> depth_sum T' < depth_sum T))"
proof (cases "i = 0")
  case True
  from inv have v: "valid T" by (simp add: chk_inv_def)
  have "inv_IF g T (Suc 0)"
    unfolding inv_IF_def
  proof (intro allI impI)
    fix j assume "j < Suc 0 \<and> j < length T"
    then have "j = 0" by simp
    with proc_zero [OF v]
    show "proc T j \<and> (0 < j \<longrightarrow> (\<forall>p\<in>set (g j). p < j \<longrightarrow> nat (T ! j) \<in> set (chain T p)))"
      by simp
  qed
  with inv True have k: "chk_inv g T (Suc i)" by (simp add: chk_inv_def)
  have e: "visit_idx g i (T, ch) = Some (T, ch)" using True by (simp add: visit_idx_def)
  have f: "fix_at g T i" using True by (simp add: fix_at_def)
  show ?thesis
  proof (intro exI conjI)
    show "visit_idx g i (T, ch) = Some (T, ch)" by (rule e)
    show "length T = n" by (rule len)
    show "chk_inv g T (Suc i)" by (rule k)
    show "(T = T \<and> ch = ch \<and> fix_at g T i) \<or> (ch \<and> depth_sum T < depth_sum T)"
      using f by simp
  qed
next
  case False
  then have i0: "0 < i" by simp
  obtain c where
    f: "foldM (absorb T) (g i) (-1) = Some (int c)" and c1: "proc T c" and c2: "c < i"
    and cmax: "set (chain T c) = (\<Inter>p\<in>{p\<in>set (g i). proc T p}. set (chain T p))"
    and c3: "\<forall>p\<in>set (g i). proc T p \<longrightarrow> c \<in> set (chain T p)"
    by (rule visit_candidate [OF g len inv i0 il])
  show ?thesis
  proof (cases "T ! i = int c")
    case True
    have k: "chk_inv g T (Suc i)" by (rule visit_keep [OF g len inv i0 il c1 c3 True])
    have e: "visit_idx g i (T, ch) = Some (T, ch)"
      unfolding visit_idx_def using False f True by simp
    have fx: "fix_at g T i" unfolding fix_at_def using f True by simp
    show ?thesis
    proof (intro exI conjI)
      show "visit_idx g i (T, ch) = Some (T, ch)" by (rule e)
      show "length T = n" by (rule len)
      show "chk_inv g T (Suc i)" by (rule k)
      show "(T = T \<and> ch = ch \<and> fix_at g T i) \<or> (ch \<and> depth_sum T < depth_sum T)"
        using fx by simp
    qed
  next
    case diff: False
    have k: "chk_inv g (T[i := int c]) (Suc i)"
      by (rule visit_change_inv [OF g len inv i0 il c1 c2 c3 cmax diff])
    have d: "depth_sum (T[i := int c]) < depth_sum T"
      by (rule visit_change_depth [OF g len inv i0 il c1 c2 c3 diff])
    have e: "visit_idx g i (T, ch) = Some (T[i := int c], True)"
      unfolding visit_idx_def using False f diff by simp
    show ?thesis
    proof (intro exI conjI)
      show "visit_idx g i (T, ch) = Some (T[i := int c], True)" by (rule e)
      show "length (T[i := int c]) = n" using len by simp
      show "chk_inv g (T[i := int c]) (Suc i)" by (rule k)
      show "(T[i := int c] = T \<and> True = ch \<and> fix_at g T i) \<or>
            (True \<and> depth_sum (T[i := int c]) < depth_sum T)"
        using d by simp
    qed
  qed
qed

lemma pass_idx:
  assumes g: "rpo_graph n g"
  shows "length T = n \<Longrightarrow> chk_inv g T i \<Longrightarrow> i + k = n \<Longrightarrow>
    \<exists>T' ch'. foldM (visit_idx g) [i..<n] (T, ch) = Some (T', ch') \<and> length T' = n \<and>
       chk_inv g T' n \<and>
       ((T' = T \<and> ch' = ch \<and> (\<forall>j. i \<le> j \<and> j < n \<longrightarrow> fix_at g T j)) \<or>
        (ch' \<and> depth_sum T' < depth_sum T))"
proof (induction k arbitrary: T i ch)
  case 0
  then have "i = n" by simp
  with 0 show ?case by auto
next
  case (Suc k)
  from Suc.prems(3) have il: "i < n" by simp
  from visit_idx_step [OF g Suc.prems(1,2) il, of ch] obtain T1 ch1 where
    s: "visit_idx g i (T, ch) = Some (T1, ch1)" and l1: "length T1 = n"
    and i1: "chk_inv g T1 (Suc i)"
    and d1: "(T1 = T \<and> ch1 = ch \<and> fix_at g T i) \<or> (ch1 \<and> depth_sum T1 < depth_sum T)"
    by blast
  from Suc.prems(3) have "Suc i + k = n" by simp
  from Suc.IH [OF l1 i1 this, of ch1] obtain T' ch' where
    r: "foldM (visit_idx g) [Suc i..<n] (T1, ch1) = Some (T', ch')" and l': "length T' = n"
    and i': "chk_inv g T' n"
    and d': "(T' = T1 \<and> ch' = ch1 \<and> (\<forall>j. Suc i \<le> j \<and> j < n \<longrightarrow> fix_at g T1 j)) \<or>
             (ch' \<and> depth_sum T' < depth_sum T1)"
    by blast
  have "[i..<n] = i # [Suc i..<n]" using il by (simp add: upt_conv_Cons)
  then have e: "foldM (visit_idx g) [i..<n] (T, ch) = Some (T', ch')" using s r by simp
  have "(T' = T \<and> ch' = ch \<and> (\<forall>j. i \<le> j \<and> j < n \<longrightarrow> fix_at g T j)) \<or>
        (ch' \<and> depth_sum T' < depth_sum T)"
  proof (cases "T1 = T \<and> ch1 = ch \<and> fix_at g T i")
    case True
    show ?thesis
    proof (cases "T' = T1 \<and> ch' = ch1 \<and> (\<forall>j. Suc i \<le> j \<and> j < n \<longrightarrow> fix_at g T1 j)")
      case a: True
      have "\<forall>j. i \<le> j \<and> j < n \<longrightarrow> fix_at g T j"
      proof (intro allI impI)
        fix j assume j: "i \<le> j \<and> j < n"
        show "fix_at g T j"
        proof (cases "j = i")
          case True with \<open>T1 = T \<and> ch1 = ch \<and> fix_at g T i\<close> show ?thesis by simp
        next
          case False
          with j have "Suc i \<le> j \<and> j < n" by simp
          with a True show ?thesis by simp
        qed
      qed
      with a True show ?thesis by simp
    next
      case False
      with d' have "ch' \<and> depth_sum T' < depth_sum T1" by blast
      with True show ?thesis by simp
    qed
  next
    case False
    with d1 have c1: "ch1" and dd: "depth_sum T1 < depth_sum T" by simp_all
    from d' show ?thesis
    proof
      assume "T' = T1 \<and> ch' = ch1 \<and> (\<forall>j. Suc i \<le> j \<and> j < n \<longrightarrow> fix_at g T1 j)"
      with c1 dd show ?thesis by simp
    next
      assume "ch' \<and> depth_sum T' < depth_sum T1"
      with dd show ?thesis by simp
    qed
  qed
  with e l' i' show ?case by blast
qed

section \<open>The iteration ends\<close>

lemma foldM_cong_inv:
  "\<forall>x\<in>set xs. \<forall>s. I s \<longrightarrow> f x s = h x s \<Longrightarrow>
   \<forall>x\<in>set xs. \<forall>s s'. I s \<longrightarrow> h x s = Some s' \<longrightarrow> I s' \<Longrightarrow>
   I s \<Longrightarrow> foldM f xs s = foldM h xs s"
proof (induction xs arbitrary: s)
  case Nil
  then show ?case by simp
next
  case (Cons x xs)
  have xm: "x \<in> set (x # xs)" by simp
  have e: "f x s = h x s"
    by (rule Cons.prems(1) [rule_format, OF xm Cons.prems(3)])
  have p1: "\<forall>y\<in>set xs. \<forall>s. I s \<longrightarrow> f y s = h y s"
  proof (intro ballI allI impI)
    fix y s assume "y \<in> set xs" and i: "I s"
    then have "y \<in> set (x # xs)" by simp
    from Cons.prems(1) [rule_format, OF this i] show "f y s = h y s" .
  qed
  have p2: "\<forall>y\<in>set xs. \<forall>s s'. I s \<longrightarrow> h y s = Some s' \<longrightarrow> I s'"
  proof (intro ballI allI impI)
    fix y s s' assume "y \<in> set xs" and i: "I s" and h: "h y s = Some s'"
    then have "y \<in> set (x # xs)" by simp
    from Cons.prems(2) [rule_format, OF this i h] show "I s'" .
  qed
  show ?case
  proof (cases "h x s")
    case None
    with e show ?thesis by simp
  next
    case (Some s')
    have i: "I s'" by (rule Cons.prems(2) [rule_format, OF xm Cons.prems(3) Some])
    from Cons.IH [OF p1 p2 i] e Some show ?thesis by simp
  qed
qed

lemma fold_process_neighbour:
  "\<forall>p\<in>set ps. p \<in> R \<longrightarrow> idx_of idx p < length T \<Longrightarrow>
   foldM (process_neighbour R idx T) ps acc =
   foldM (absorb T) (map (idx_of idx) (filter (\<lambda>p. p \<in> R) ps)) acc"
proof (induction ps arbitrary: acc)
  case Nil
  then show ?case by simp
next
  case (Cons p ps)
  show ?case
  proof (cases "p \<in> R")
    case False
    with Cons show ?thesis by (simp add: process_neighbour_def)
  next
    case True
    with Cons.prems have "idx_of idx p < length T" by simp
    with True have "process_neighbour R idx T p acc = absorb T (idx_of idx p) acc"
      by (simp add: process_neighbour_def absorb_def Let_def)
    with Cons True show ?thesis by (simp split: option.splits)
  qed
qed

lemma visit_eq:
  assumes "nbrs_ok n R idx nbrs" "length T = n" "i < n"
  shows "visit R idx nbrs 0 i (T, ch) = visit_idx (idx_nbrs R idx nbrs) i (T, ch)"
proof (cases "i = 0")
  case True
  then show ?thesis by (simp add: visit_def visit_idx_def)
next
  case False
  with assms obtain ps where ps: "nbrs i = Some ps"
    "\<forall>p\<in>set ps. p \<in> R \<longrightarrow> idx_of idx p < length T"
    unfolding nbrs_ok_def by auto
  have "foldM (process_neighbour R idx T) ps (-1) = foldM (absorb T) (idx_nbrs R idx nbrs i) (-1)"
    using fold_process_neighbour [OF ps(2)] ps(1) by (simp add: idx_nbrs_def)
  with False ps(1) show ?thesis by (simp add: visit_def visit_idx_def)
qed

lemma visit_idx_length:
  "visit_idx g i st = Some st' \<Longrightarrow> length (fst st') = length (fst st)"
  by (auto simp: visit_idx_def split: if_splits option.splits)

lemma pass_eq:
  assumes "nbrs_ok n R idx nbrs" "length T = n"
  shows "foldM (visit R idx nbrs 0) [0..<n] (T, ch) =
         foldM (visit_idx (idx_nbrs R idx nbrs)) [0..<n] (T, ch)"
proof (rule foldM_cong_inv [where I = "\<lambda>s::int list \<times> bool. length (fst s) = n"])
  show "\<forall>x\<in>set [0..<n]. \<forall>s::int list \<times> bool. length (fst s) = n \<longrightarrow>
          visit R idx nbrs 0 x s = visit_idx (idx_nbrs R idx nbrs) x s"
  proof (intro ballI allI impI)
    fix x and s :: "int list \<times> bool" assume "x \<in> set [0..<n]" "length (fst s) = n"
    with visit_eq [OF assms(1), of "fst s" x "snd s"]
    show "visit R idx nbrs 0 x s = visit_idx (idx_nbrs R idx nbrs) x s" by simp
  qed
  show "\<forall>x\<in>set [0..<n]. \<forall>(s::int list \<times> bool) s'. length (fst s) = n \<longrightarrow>
          visit_idx (idx_nbrs R idx nbrs) x s = Some s' \<longrightarrow> length (fst s') = n"
    by (auto dest: visit_idx_length)
  from assms(2) show "length (fst (T, ch)) = n" by simp
qed

lemma chk_inv_restart: "chk_inv g T i \<Longrightarrow> chk_inv g T 0"
  by (simp add: chk_inv_def inv_IF_def)

lemma iterate_total:
  assumes g: "rpo_graph n (idx_nbrs R idx nbrs)" and ok: "nbrs_ok n R idx nbrs"
  shows "length T = n \<Longrightarrow> chk_inv (idx_nbrs R idx nbrs) T 0 \<Longrightarrow>
    \<exists>T'. iterate R idx nbrs 0 T = Some T' \<and> length T' = n \<and>
         chk_inv (idx_nbrs R idx nbrs) T' n \<and> (\<forall>j<n. fix_at (idx_nbrs R idx nbrs) T' j)"
proof (induction "depth_sum T" arbitrary: T rule: less_induct)
  case less
  let ?g = "idx_nbrs R idx nbrs"
  from pass_idx [OF g less.prems(1,2), of n False] obtain T1 ch1 where
    p: "foldM (visit_idx ?g) [0..<n] (T, False) = Some (T1, ch1)" and l1: "length T1 = n"
    and i1: "chk_inv ?g T1 n"
    and d: "(T1 = T \<and> ch1 = False \<and> (\<forall>j. 0 \<le> j \<and> j < n \<longrightarrow> fix_at ?g T j)) \<or>
            (ch1 \<and> depth_sum T1 < depth_sum T)"
    by auto
  have p': "foldM (visit R idx nbrs 0) [0..<length T] (T, False) = Some (T1, ch1)"
    using pass_eq [OF ok less.prems(1), of False] p less.prems(1) by simp
  from d show ?case
  proof
    assume a: "T1 = T \<and> ch1 = False \<and> (\<forall>j. 0 \<le> j \<and> j < n \<longrightarrow> fix_at ?g T j)"
    have "iterate R idx nbrs 0 T = Some T"
      using p' a by (subst iterate.simps) simp
    with a l1 i1 show ?thesis by simp
  next
    assume a: "ch1 \<and> depth_sum T1 < depth_sum T"
    from less.hyps [OF _ l1 chk_inv_restart [OF i1]] a obtain T' where
      r: "iterate R idx nbrs 0 T1 = Some T'" "length T' = n" "chk_inv ?g T' n"
      "\<forall>j<n. fix_at ?g T' j" by blast
    have "iterate R idx nbrs 0 T = iterate R idx nbrs 0 T1"
      using p' a by (subst iterate.simps) simp
    with r show ?thesis by simp
  qed
qed

lemma chk_inv_init:
  assumes "0 < n"
  shows "chk_inv g ((replicate n (-1))[0 := 0]) 0"
proof -
  let ?T = "(replicate n (-1))[0 := 0] :: int list"
  have nth: "\<And>j. j < n \<Longrightarrow> ?T ! j = (if j = 0 then 0 else -1)"
    using assms by (simp add: nth_list_update)
  have pr: "\<And>j. proc ?T j \<longleftrightarrow> j = 0"
    using assms nth by (auto simp: proc_def split: if_splits)
  have v: "valid ?T" unfolding valid_def using assms nth by (auto split: if_splits)
  have "inv_KF g ?T" unfolding inv_KF_def using pr by (auto simp: chain_zero_eq intro: fwd_refl)
  moreover have "inv_IF g ?T 0" by (simp add: inv_IF_def)
  moreover have "inv_IN g ?T" unfolding inv_IN_def using pr by auto
  ultimately show ?thesis using v by (simp add: chk_inv_def)
qed

text \<open>What the invariant says once a pass is complete.\<close>

lemma chk_inv_final:
  assumes "chk_inv g T n" "length T = n" "j < n"
  shows "proc T j" "0 < j \<Longrightarrow> 0 \<le> T ! j \<and> T ! j < int j"
proof -
  from assms show p: "proc T j" by (simp add: chk_inv_def inv_IF_def)
  from assms(1) have v: "valid T" by (simp add: chk_inv_def)
  assume "0 < j"
  from valid_parent(1,2) [OF v p this] show "0 \<le> T ! j \<and> T ! j < int j" by simp
qed

section \<open>The depth-first traversal\<close>

lemma DFSUtil_Inl:
  "DFSUtil adj (Inl v) (R, po) =
     Option.bind (DFSUtil adj (Inr (adj v)) (insert v R, po)) (\<lambda>st'. Some (fst st', snd st' @ [v]))"
  by (subst DFSUtil.simps) simp

lemma DFSUtil_Nil: "DFSUtil adj (Inr []) st = Some st"
  by (subst DFSUtil.simps) simp

lemma DFSUtil_Cons_in: "s \<in> R \<Longrightarrow> DFSUtil adj (Inr (s # ss)) (R, po) = DFSUtil adj (Inr ss) (R, po)"
  by (subst DFSUtil.simps) simp

lemma DFSUtil_Cons_out:
  "s \<notin> R \<Longrightarrow> DFSUtil adj (Inr (s # ss)) (R, po) =
     Option.bind (DFSUtil adj (Inl s) (R, po)) (\<lambda>st'. DFSUtil adj (Inr ss) st')"
  by (subst DFSUtil.simps) simp

lemma later_parent_append: "later_parent adj po x \<Longrightarrow> later_parent adj (po @ zs) x"
  unfolding later_parent_def
proof (elim exE conjE)
  fix xs ys u assume "po = xs @ x # ys" "u \<in> set ys" "x \<in> set (adj u)"
  then have "po @ zs = xs @ x # (ys @ zs) \<and> u \<in> set (ys @ zs) \<and> x \<in> set (adj u)" by simp
  then show "\<exists>xs ys u. po @ zs = xs @ x # ys \<and> u \<in> set ys \<and> x \<in> set (adj u)" by blast
qed

lemma later_parent_prepend: "later_parent adj po x \<Longrightarrow> later_parent adj (zs @ po) x"
  unfolding later_parent_def
proof (elim exE conjE)
  fix xs ys u assume "po = xs @ x # ys" "u \<in> set ys" "x \<in> set (adj u)"
  then have "zs @ po = (zs @ xs) @ x # ys \<and> u \<in> set ys \<and> x \<in> set (adj u)" by simp
  then show "\<exists>xs ys u. zs @ po = xs @ x # ys \<and> u \<in> set ys \<and> x \<in> set (adj u)" by blast
qed

lemma later_parent_last:
  assumes "x \<in> set new" "x \<in> set (adj v)"
  shows "later_parent adj (new @ [v]) x"
proof -
  from assms(1) obtain xs ys where "new = xs @ x # ys" by (auto dest: split_list)
  then have "new @ [v] = xs @ x # (ys @ [v]) \<and> v \<in> set (ys @ [v]) \<and> x \<in> set (adj v)"
    using assms(2) by simp
  then show ?thesis unfolding later_parent_def by blast
qed

lemma dfs_inl_step:
  assumes fin: "finite V" and cl: "\<forall>v\<in>V. set (adj v) \<subseteq> V"
    and IH: "\<And>R' ss po. R' \<subseteq> V \<Longrightarrow> card (V - R') < k \<Longrightarrow> set ss \<subseteq> V \<Longrightarrow> dfs_inr_spec adj V R' ss po"
    and R: "R \<subseteq> V" and k: "card (V - R) \<le> k" and v: "v \<in> V" "v \<notin> R"
  shows "dfs_inl_spec adj V R v po"
proof -
  let ?R0 = "insert v R"
  have "V - ?R0 \<subset> V - R" using v by auto
  then have "card (V - ?R0) < card (V - R)" using fin by (intro psubset_card_mono) simp_all
  with k have c: "card (V - ?R0) < k" by simp
  have R0: "?R0 \<subseteq> V" using R v by simp
  have sv: "set (adj v) \<subseteq> V" using cl v by simp
  from IH [OF R0 c sv, of po] obtain new0 where
    e: "DFSUtil adj (Inr (adj v)) (?R0, po) = Some (?R0 \<union> set new0, po @ new0)"
    and p: "dfs_post adj V ?R0 (adj v) new0" and s: "set (adj v) \<subseteq> ?R0 \<union> set new0"
    unfolding dfs_inr_spec_def by blast
  let ?new = "new0 @ [v]"
  from p have d0: "distinct new0" and i0: "set new0 \<inter> ?R0 = {}" and v0: "set new0 \<subseteq> V"
    and c0: "\<forall>x\<in>set new0. set (adj x) \<subseteq> ?R0 \<union> set new0"
    and l0: "\<forall>x\<in>set new0. x \<in> set (adj v) \<or> later_parent adj new0 x"
    and r0: "\<forall>x\<in>set new0. \<exists>s\<in>set (adj v). (s, x) \<in> (edge_rel adj)\<^sup>*"
    unfolding dfs_post_def by simp_all
  have e': "DFSUtil adj (Inl v) (R, po) = Some (R \<union> set ?new, po @ ?new)"
    using e by (simp add: DFSUtil_Inl)
  have "dfs_post adj V R [v] ?new"
    unfolding dfs_post_def
  proof (intro conjI ballI)
    show "distinct ?new" using d0 i0 by auto
    show "set ?new \<inter> R = {}" using i0 v(2) by auto
    show "set ?new \<subseteq> V" using v0 v(1) by simp
  next
    fix x assume "x \<in> set ?new"
    then have "x \<in> set new0 \<or> x = v" by auto
    then show "set (adj x) \<subseteq> R \<union> set ?new" using c0 s by auto
  next
    fix x assume "x \<in> set ?new"
    then have "x \<in> set new0 \<or> x = v" by auto
    then show "x \<in> set [v] \<or> later_parent adj ?new x"
    proof
      assume x: "x \<in> set new0"
      with l0 have "x \<in> set (adj v) \<or> later_parent adj new0 x" by blast
      then show ?thesis using later_parent_last [OF x] later_parent_append by blast
    next
      assume "x = v" then show ?thesis by simp
    qed
  next
    fix x assume "x \<in> set ?new"
    then have "x \<in> set new0 \<or> x = v" by auto
    then show "\<exists>s\<in>set [v]. (s, x) \<in> (edge_rel adj)\<^sup>*"
    proof
      assume "x \<in> set new0"
      with r0 obtain s where s: "s \<in> set (adj v)" "(s, x) \<in> (edge_rel adj)\<^sup>*" by blast
      from s(1) have "(v, s) \<in> edge_rel adj" by (simp add: edge_rel_def)
      from this s(2) have "(v, x) \<in> (edge_rel adj)\<^sup>*" by (rule converse_rtrancl_into_rtrancl)
      then show ?thesis by simp
    next
      assume "x = v" then show ?thesis by simp
    qed
  qed
  with e' show ?thesis unfolding dfs_inl_spec_def by (intro exI [of _ ?new]) simp
qed

lemma dfs_post_Nil: "dfs_post adj V R ss []"
  by (simp add: dfs_post_def)

lemma dfs_post_Cons: "dfs_post adj V R ss new \<Longrightarrow> dfs_post adj V R (s # ss) new"
  unfolding dfs_post_def by auto

lemma dfs_post_append:
  assumes p1: "dfs_post adj V R [s] new1" and p2: "dfs_post adj V (R \<union> set new1) ss new2"
  shows "dfs_post adj V R (s # ss) (new1 @ new2)"
proof -
  from p1 have d1: "distinct new1" and i1: "set new1 \<inter> R = {}" and v1: "set new1 \<subseteq> V"
    and c1: "\<forall>x\<in>set new1. set (adj x) \<subseteq> R \<union> set new1"
    and l1: "\<forall>x\<in>set new1. x \<in> set [s] \<or> later_parent adj new1 x"
    and r1: "\<forall>x\<in>set new1. \<exists>t\<in>set [s]. (t, x) \<in> (edge_rel adj)\<^sup>*"
    unfolding dfs_post_def by simp_all
  from p2 have d2: "distinct new2" and i2: "set new2 \<inter> (R \<union> set new1) = {}" and v2: "set new2 \<subseteq> V"
    and c2: "\<forall>x\<in>set new2. set (adj x) \<subseteq> (R \<union> set new1) \<union> set new2"
    and l2: "\<forall>x\<in>set new2. x \<in> set ss \<or> later_parent adj new2 x"
    and r2: "\<forall>x\<in>set new2. \<exists>t\<in>set ss. (t, x) \<in> (edge_rel adj)\<^sup>*"
    unfolding dfs_post_def by simp_all
  show ?thesis
    unfolding dfs_post_def
  proof (intro conjI ballI)
    show "distinct (new1 @ new2)" using d1 d2 i2 by auto
    show "set (new1 @ new2) \<inter> R = {}" using i1 i2 by auto
    show "set (new1 @ new2) \<subseteq> V" using v1 v2 by simp
  next
    fix x assume "x \<in> set (new1 @ new2)"
    then have "x \<in> set new1 \<or> x \<in> set new2" by simp
    then show "set (adj x) \<subseteq> R \<union> set (new1 @ new2)" using c1 c2 by auto
  next
    fix x assume "x \<in> set (new1 @ new2)"
    then have "x \<in> set new1 \<or> x \<in> set new2" by simp
    then show "x \<in> set (s # ss) \<or> later_parent adj (new1 @ new2) x"
    proof
      assume "x \<in> set new1"
      with l1 have "x = s \<or> later_parent adj new1 x" by auto
      then show ?thesis using later_parent_append by auto
    next
      assume "x \<in> set new2"
      with l2 have "x \<in> set ss \<or> later_parent adj new2 x" by auto
      then show ?thesis using later_parent_prepend by auto
    qed
  next
    fix x assume "x \<in> set (new1 @ new2)"
    then have "x \<in> set new1 \<or> x \<in> set new2" by simp
    then show "\<exists>t\<in>set (s # ss). (t, x) \<in> (edge_rel adj)\<^sup>*"
    proof
      assume "x \<in> set new1" with r1 show ?thesis by auto
    next
      assume "x \<in> set new2" with r2 show ?thesis by auto
    qed
  qed
qed


lemma dfs_inr_step:
  assumes Inl: "\<And>R' v out. R' \<subseteq> V \<Longrightarrow> card (V - R') \<le> k \<Longrightarrow> v \<in> V \<Longrightarrow> v \<notin> R' \<Longrightarrow>
                  dfs_inl_spec adj V R' v out"
    and fin: "finite V"
  shows "R \<subseteq> V \<Longrightarrow> card (V - R) \<le> k \<Longrightarrow> set ss \<subseteq> V \<Longrightarrow> \<forall>out. dfs_inr_spec adj V R ss out"
proof (induction ss arbitrary: R)
  case Nil
  show ?case
  proof
    fix out
    have "DFSUtil adj (Inr []) (R, out) = Some (R \<union> set [], out @ [])" by (simp add: DFSUtil_Nil)
    moreover have "dfs_post adj V R [] []" by (rule dfs_post_Nil)
    ultimately show "dfs_inr_spec adj V R [] out"
      unfolding dfs_inr_spec_def by (intro exI [of _ "[]"]) simp
  qed
next
  case (Cons s ss)
  from Cons.prems(3) have sV: "s \<in> V" and ssV: "set ss \<subseteq> V" by simp_all
  show ?case
  proof
    fix out
    show "dfs_inr_spec adj V R (s # ss) out"
    proof (cases "s \<in> R")
      case True
      from Cons.IH [OF Cons.prems(1,2) ssV] obtain new where
        e: "DFSUtil adj (Inr ss) (R, out) = Some (R \<union> set new, out @ new)"
        and p: "dfs_post adj V R ss new" and s: "set ss \<subseteq> R \<union> set new"
        unfolding dfs_inr_spec_def by blast
      have "DFSUtil adj (Inr (s # ss)) (R, out) = Some (R \<union> set new, out @ new)"
        using e True by (simp add: DFSUtil_Cons_in)
      moreover have "dfs_post adj V R (s # ss) new" by (rule dfs_post_Cons [OF p])
      moreover have "set (s # ss) \<subseteq> R \<union> set new" using s True by simp
      ultimately show ?thesis unfolding dfs_inr_spec_def by blast
    next
      case False
      from Inl [OF Cons.prems(1,2) sV False, of out] obtain new1 where
        e1: "DFSUtil adj (Inl s) (R, out) = Some (R \<union> set new1, out @ new1)"
        and p1: "dfs_post adj V R [s] new1" and n1: "new1 \<noteq> []" and l1: "last new1 = s"
        unfolding dfs_inl_spec_def by blast
      from p1 have v1: "set new1 \<subseteq> V" unfolding dfs_post_def by simp
      let ?R1 = "R \<union> set new1"
      have R1: "?R1 \<subseteq> V" using Cons.prems(1) v1 by simp
      have "V - ?R1 \<subseteq> V - R" by auto
      then have "card (V - ?R1) \<le> card (V - R)" using fin by (intro card_mono) simp_all
      with Cons.prems(2) have c1: "card (V - ?R1) \<le> k" by simp
      from Cons.IH [OF R1 c1 ssV] obtain new2 where
        e2: "DFSUtil adj (Inr ss) (?R1, out @ new1) = Some (?R1 \<union> set new2, (out @ new1) @ new2)"
        and p2: "dfs_post adj V ?R1 ss new2" and s2: "set ss \<subseteq> ?R1 \<union> set new2"
        unfolding dfs_inr_spec_def by blast
      have sm: "s \<in> set new1" using n1 l1 last_in_set by metis
      have "DFSUtil adj (Inr (s # ss)) (R, out) = Some (R \<union> set (new1 @ new2), out @ (new1 @ new2))"
        using e1 e2 False by (simp add: DFSUtil_Cons_out Un_assoc)
      moreover have "dfs_post adj V R (s # ss) (new1 @ new2)" by (rule dfs_post_append [OF p1 p2])
      moreover have "set (s # ss) \<subseteq> R \<union> set (new1 @ new2)" using s2 sm by auto
      ultimately show ?thesis unfolding dfs_inr_spec_def by blast
    qed
  qed
qed

lemma dfs_inr_total:
  assumes fin: "finite V" and cl: "\<forall>v\<in>V. set (adj v) \<subseteq> V"
  shows "R \<subseteq> V \<Longrightarrow> card (V - R) \<le> k \<Longrightarrow> set ss \<subseteq> V \<Longrightarrow> \<forall>out. dfs_inr_spec adj V R ss out"
proof (induction k arbitrary: R ss rule: less_induct)
  case (less k)
  have inr: "\<And>R' ss out. R' \<subseteq> V \<Longrightarrow> card (V - R') < k \<Longrightarrow> set ss \<subseteq> V \<Longrightarrow> dfs_inr_spec adj V R' ss out"
  proof -
    fix R' ss out assume a: "R' \<subseteq> V" "card (V - R') < k" "set ss \<subseteq> V"
    from less.IH [OF a(2) a(1) _ a(3)] show "dfs_inr_spec adj V R' ss out" by simp
  qed
  have inl: "\<And>R' v out. R' \<subseteq> V \<Longrightarrow> card (V - R') \<le> k \<Longrightarrow> v \<in> V \<Longrightarrow> v \<notin> R' \<Longrightarrow>
                  dfs_inl_spec adj V R' v out"
    by (rule dfs_inl_step [OF fin cl inr])
  from dfs_inr_step [OF inl fin less.prems] show ?case .
qed

lemma dfs_inl_total:
  assumes fin: "finite V" and cl: "\<forall>v\<in>V. set (adj v) \<subseteq> V"
    and R: "R \<subseteq> V" and v: "v \<in> V" "v \<notin> R"
  shows "dfs_inl_spec adj V R v out"
proof (rule dfs_inl_step [OF fin cl _ R _ v])
  show "card (V - R) \<le> card (V - R)" by simp
next
  fix R' ss out assume a: "R' \<subseteq> V" "card (V - R') < card (V - R)" "set ss \<subseteq> V"
  have "card (V - R') \<le> card (V - R')" by simp
  from dfs_inr_total [OF fin cl a(1) this a(3)] show "dfs_inr_spec adj V R' ss out" by simp
qed

section \<open>The post-order of the traversals\<close>

lemma dfs_post_seq:
  assumes p1: "dfs_post adj V R A new1" and p2: "dfs_post adj V (R \<union> set new1) B new2"
  shows "dfs_post adj V R (A @ B) (new1 @ new2)"
proof -
  from p1 have d1: "distinct new1" and i1: "set new1 \<inter> R = {}" and v1: "set new1 \<subseteq> V"
    and c1: "\<forall>x\<in>set new1. set (adj x) \<subseteq> R \<union> set new1"
    and l1: "\<forall>x\<in>set new1. x \<in> set A \<or> later_parent adj new1 x"
    and r1: "\<forall>x\<in>set new1. \<exists>t\<in>set A. (t, x) \<in> (edge_rel adj)\<^sup>*"
    unfolding dfs_post_def by simp_all
  from p2 have d2: "distinct new2" and i2: "set new2 \<inter> (R \<union> set new1) = {}" and v2: "set new2 \<subseteq> V"
    and c2: "\<forall>x\<in>set new2. set (adj x) \<subseteq> (R \<union> set new1) \<union> set new2"
    and l2: "\<forall>x\<in>set new2. x \<in> set B \<or> later_parent adj new2 x"
    and r2: "\<forall>x\<in>set new2. \<exists>t\<in>set B. (t, x) \<in> (edge_rel adj)\<^sup>*"
    unfolding dfs_post_def by simp_all
  show ?thesis
    unfolding dfs_post_def
  proof (intro conjI ballI)
    show "distinct (new1 @ new2)" using d1 d2 i2 by auto
    show "set (new1 @ new2) \<inter> R = {}" using i1 i2 by auto
    show "set (new1 @ new2) \<subseteq> V" using v1 v2 by simp
  next
    fix x assume "x \<in> set (new1 @ new2)"
    then have "x \<in> set new1 \<or> x \<in> set new2" by simp
    then show "set (adj x) \<subseteq> R \<union> set (new1 @ new2)" using c1 c2 by auto
  next
    fix x assume "x \<in> set (new1 @ new2)"
    then have "x \<in> set new1 \<or> x \<in> set new2" by simp
    then show "x \<in> set (A @ B) \<or> later_parent adj (new1 @ new2) x"
    proof
      assume "x \<in> set new1"
      with l1 have "x \<in> set A \<or> later_parent adj new1 x" by auto
      then show ?thesis using later_parent_append by auto
    next
      assume "x \<in> set new2"
      with l2 have "x \<in> set B \<or> later_parent adj new2 x" by auto
      then show ?thesis using later_parent_prepend by auto
    qed
  next
    fix x assume "x \<in> set (new1 @ new2)"
    then have "x \<in> set new1 \<or> x \<in> set new2" by simp
    then show "\<exists>t\<in>set (A @ B). (t, x) \<in> (edge_rel adj)\<^sup>*"
    proof
      assume "x \<in> set new1" with r1 show ?thesis by auto
    next
      assume "x \<in> set new2" with r2 show ?thesis by auto
    qed
  qed
qed

lemma later_parent_mem:
  "later_parent adj out x \<Longrightarrow> \<exists>u\<in>set out. x \<in> set (adj u)"
  unfolding later_parent_def by auto

text \<open>The traversals from a list of roots that no block has as a neighbour.\<close>

lemma fold_roots:
  assumes fin: "finite V" and cl: "\<forall>v\<in>V. set (adj v) \<subseteq> V"
  shows "set rs \<subseteq> V \<Longrightarrow> distinct rs \<Longrightarrow> \<forall>r\<in>set rs. \<forall>u\<in>V. r \<notin> set (adj u) \<Longrightarrow>
    \<forall>dn out. dfs_post adj V {} dn out \<and> set rs \<inter> set dn = {} \<and> set dn \<subseteq> set out \<longrightarrow>
      (\<exists>new. foldM (\<lambda>bb. DFSUtil adj (Inl bb)) rs (set out, out) = Some (set (out @ new), out @ new) \<and>
             dfs_post adj V {} (dn @ rs) (out @ new) \<and> set (dn @ rs) \<subseteq> set (out @ new))"
proof (induction rs)
  case Nil
  show ?case
  proof (intro allI impI)
    fix dn out assume "dfs_post adj V {} dn out \<and> set [] \<inter> set dn = {} \<and> set dn \<subseteq> set out"
    then show "\<exists>new. foldM (\<lambda>bb. DFSUtil adj (Inl bb)) [] (set out, out) = Some (set (out @ new), out @ new) \<and>
             dfs_post adj V {} (dn @ []) (out @ new) \<and> set (dn @ []) \<subseteq> set (out @ new)"
      by (intro exI [of _ "[]"]) simp
  qed
next
  case (Cons r rs)
  from Cons.prems have rV: "r \<in> V" and rsV: "set rs \<subseteq> V" and dr: "distinct rs" and rn: "r \<notin> set rs"
    and src: "\<forall>u\<in>V. r \<notin> set (adj u)" and srcs: "\<forall>r\<in>set rs. \<forall>u\<in>V. r \<notin> set (adj u)"
    by simp_all
  note IH = Cons.IH [OF rsV dr srcs, rule_format]
  show ?case
  proof (intro allI impI)
    fix dn out assume a: "dfs_post adj V {} dn out \<and> set (r # rs) \<inter> set dn = {} \<and> set dn \<subseteq> set out"
    then have p: "dfs_post adj V {} dn out" and rd: "r \<notin> set dn" and rsd: "set rs \<inter> set dn = {}"
      and dsub: "set dn \<subseteq> set out" by auto
    from p have oV: "set out \<subseteq> V"
      and lp: "\<forall>x\<in>set out. x \<in> set dn \<or> later_parent adj out x"
      unfolding dfs_post_def by simp_all
    have rout: "r \<notin> set out"
    proof
      assume "r \<in> set out"
      with lp rd have "later_parent adj out r" by blast
      from later_parent_mem [OF this] obtain u where "u \<in> set out" "r \<in> set (adj u)" by blast
      with oV src show False by blast
    qed
    from dfs_inl_total [OF fin cl oV rV rout, of out] obtain new1 where
      e1: "DFSUtil adj (Inl r) (set out, out) = Some (set out \<union> set new1, out @ new1)"
      and p1: "dfs_post adj V (set out) [r] new1" and n1: "new1 \<noteq> []" and l1: "last new1 = r"
      unfolding dfs_inl_spec_def by blast
    have rm: "r \<in> set new1" using n1 l1 last_in_set by metis
    have p1': "dfs_post adj V ({} \<union> set out) [r] new1" using p1 by simp
    have p': "dfs_post adj V {} (dn @ [r]) (out @ new1)" by (rule dfs_post_seq [OF p p1'])
    have "set rs \<inter> set (dn @ [r]) = {}" using rsd rn by auto
    moreover have "set (dn @ [r]) \<subseteq> set (out @ new1)" using dsub rm by auto
    ultimately obtain new2 where
      e2: "foldM (\<lambda>bb. DFSUtil adj (Inl bb)) rs (set (out @ new1), out @ new1) =
             Some (set ((out @ new1) @ new2), (out @ new1) @ new2)"
      and p2: "dfs_post adj V {} ((dn @ [r]) @ rs) ((out @ new1) @ new2)"
      and s2: "set ((dn @ [r]) @ rs) \<subseteq> set ((out @ new1) @ new2)"
      using IH [of "dn @ [r]" "out @ new1"] p' by blast
    have "foldM (\<lambda>bb. DFSUtil adj (Inl bb)) (r # rs) (set out, out) =
            Some (set (out @ (new1 @ new2)), out @ (new1 @ new2))"
      using e1 e2 by simp
    moreover have "dfs_post adj V {} (dn @ r # rs) (out @ (new1 @ new2))" using p2 by simp
    moreover have "set (dn @ r # rs) \<subseteq> set (out @ (new1 @ new2))" using s2 by simp
    ultimately show "\<exists>new. foldM (\<lambda>bb. DFSUtil adj (Inl bb)) (r # rs) (set out, out) =
                Some (set (out @ new), out @ new) \<and>
             dfs_post adj V {} (dn @ r # rs) (out @ new) \<and> set (dn @ r # rs) \<subseteq> set (out @ new)"
      by blast
  qed
qed

lemma rpo_roots:
  assumes fin: "finite V" and cl: "\<forall>v\<in>V. set (adj v) \<subseteq> V"
    and rs: "set rs \<subseteq> V" "distinct rs" "\<forall>r\<in>set rs. \<forall>u\<in>V. r \<notin> set (adj u)"
  shows "\<exists>out. getReversePostOrder adj rs = Some (set out, rev out) \<and>
               dfs_post adj V {} rs out \<and> set rs \<subseteq> set out"
proof -
  have "dfs_post adj V {} [] [] \<and> set rs \<inter> set [] = {} \<and> set ([]::nat list) \<subseteq> set []"
    by (simp add: dfs_post_Nil)
  from fold_roots [OF fin cl rs, rule_format, OF this] obtain new where
    "foldM (\<lambda>bb. DFSUtil adj (Inl bb)) rs ({}, []) = Some (set new, new)"
    "dfs_post adj V {} rs new" "set rs \<subseteq> set new" by auto
  then show ?thesis by (auto simp: getReversePostOrder_def)
qed

lemma rpo_single:
  assumes fin: "finite V" and cl: "\<forall>v\<in>V. set (adj v) \<subseteq> V" and e: "entry \<in> V"
  shows "\<exists>out. getReversePostOrder adj [entry] = Some (set out, rev out) \<and>
               dfs_post adj V {} [entry] out \<and> out \<noteq> [] \<and> last out = entry"
proof -
  have "{} \<subseteq> V" "entry \<notin> {}" by simp_all
  from dfs_inl_total [OF fin cl this(1) e this(2), of "[]"] obtain new where
    "DFSUtil adj (Inl entry) ({}, []) = Some ({} \<union> set new, [] @ new)"
    "dfs_post adj V {} [entry] new" "new \<noteq> []" "last new = entry"
    unfolding dfs_inl_spec_def by blast
  then show ?thesis by (auto simp: getReversePostOrder_def)
qed

section \<open>From the order of the blocks to the graph on indices\<close>

lemma build_bbToIdx_fold:
  assumes "distinct rpo"
  shows "k \<le> length rpo \<Longrightarrow>
    \<forall>i<k. fold (\<lambda>i m. m(rpo ! i \<mapsto> i)) [0..<k] Map.empty (rpo ! i) = Some i"
proof (induction k)
  case 0
  then show ?case by simp
next
  case (Suc k)
  define m where "m = fold (\<lambda>i m. m(rpo ! i \<mapsto> i)) [0..<k] Map.empty"
  have f: "fold (\<lambda>i m. m(rpo ! i \<mapsto> i)) [0..<Suc k] Map.empty = m(rpo ! k \<mapsto> k)"
    unfolding m_def by (simp only: upt_Suc_append le0 fold_append fold.simps comp_apply id_apply if_True)
  from Suc.prems have kl: "k \<le> length rpo" by simp
  have ih: "\<forall>i<k. m (rpo ! i) = Some i" unfolding m_def by (rule Suc.IH [OF kl])
  show ?case
  proof (intro allI impI)
    fix i assume i: "i < Suc k"
    show "fold (\<lambda>i m. m(rpo ! i \<mapsto> i)) [0..<Suc k] Map.empty (rpo ! i) = Some i"
    proof (cases "i = k")
      case True
      then show ?thesis by (simp only: f fun_upd_same)
    next
      case False
      with i have ik: "i < k" by simp
      with Suc.prems assms have "rpo ! i \<noteq> rpo ! k" by (simp add: nth_eq_iff_index_eq)
      then have "(m(rpo ! k \<mapsto> k)) (rpo ! i) = m (rpo ! i)" by (rule fun_upd_other)
      with ih ik show ?thesis by (simp only: f)
    qed
  qed
qed

lemma idx_of_nth:
  assumes "distinct rpo" "i < length rpo"
  shows "idx_of (build_bbToIdx rpo) (rpo ! i) = i"
  using build_bbToIdx_fold [OF assms(1), of "length rpo"] assms(2)
  by (simp add: idx_of_def build_bbToIdx_def)

lemma idx_of_mem:
  assumes "distinct rpo" "p \<in> set rpo"
  shows "idx_of (build_bbToIdx rpo) p < length rpo" "rpo ! idx_of (build_bbToIdx rpo) p = p"
proof -
  from assms(2) obtain i where i: "i < length rpo" "rpo ! i = p" by (auto simp: in_set_conv_nth)
  with idx_of_nth [OF assms(1) i(1)] show "idx_of (build_bbToIdx rpo) p < length rpo"
    "rpo ! idx_of (build_bbToIdx rpo) p = p" by simp_all
qed

text \<open>
  An order in which every block but the first has a neighbour placed before it yields
  a graph on indices with the properties of a reverse post-order numbering.
\<close>

lemma graph_from_order:
  assumes d: "distinct rpo" and n: "0 < length rpo"
    and nb: "\<forall>i. 0 < i \<and> i < length rpo \<longrightarrow> (\<exists>ps. nbrs i = Some ps \<and> (\<exists>k<i. rpo ! k \<in> set ps))"
  shows "rpo_graph (length rpo) (idx_nbrs (set rpo) (build_bbToIdx rpo) nbrs)"
    and "nbrs_ok (length rpo) (set rpo) (build_bbToIdx rpo) nbrs"
proof -
  let ?idx = "build_bbToIdx rpo"
  let ?g = "idx_nbrs (set rpo) ?idx nbrs"
  have rng: "\<forall>i<length rpo. \<forall>p\<in>set (?g i). p < length rpo"
  proof (intro allI impI ballI)
    fix i p assume "p \<in> set (?g i)"
    then obtain q where "q \<in> set rpo" "p = idx_of ?idx q"
      by (auto simp: idx_nbrs_def split: option.splits)
    with idx_of_mem(1) [OF d] show "p < length rpo" by simp
  qed
  have fw: "\<forall>i. 0 < i \<and> i < length rpo \<longrightarrow> (\<exists>p\<in>set (?g i). p < i)"
  proof (intro allI impI)
    fix i assume i: "0 < i \<and> i < length rpo"
    with nb obtain ps k where ps: "nbrs i = Some ps" and k: "k < i" "rpo ! k \<in> set ps" by blast
    from k(1) i have kl: "k < length rpo" by simp
    then have km: "rpo ! k \<in> set rpo" by simp
    have "idx_of ?idx (rpo ! k) = k" by (rule idx_of_nth [OF d kl])
    moreover have "idx_of ?idx (rpo ! k) \<in> set (?g i)"
      using ps k(2) km by (simp add: idx_nbrs_def)
    ultimately show "\<exists>p\<in>set (?g i). p < i" using k(1) by auto
  qed
  from n rng fw show "rpo_graph (length rpo) ?g" unfolding rpo_graph_def by blast
  show "nbrs_ok (length rpo) (set rpo) ?idx nbrs"
    unfolding nbrs_ok_def
  proof (intro allI impI)
    fix i assume "0 < i \<and> i < length rpo"
    with nb obtain ps where ps: "nbrs i = Some ps" by blast
    have "\<forall>p\<in>set ps. p \<in> set rpo \<longrightarrow> idx_of ?idx p < length rpo"
      using idx_of_mem(1) [OF d] by blast
    with ps show "\<exists>ps. nbrs i = Some ps \<and> (\<forall>p\<in>set ps. p \<in> set rpo \<longrightarrow> idx_of ?idx p < length rpo)"
      by blast
  qed
qed

text \<open>
  In the reversed post-order, a block whose traversal parent comes later in the
  post-order has it at a smaller index.
\<close>

lemma later_parent_rev:
  assumes d: "distinct out" and lp: "later_parent adj out x"
  obtains i k where "i < length out" "rev out ! i = x" "k < i" "x \<in> set (adj (rev out ! k))"
proof -
  from lp obtain xs ys u where o: "out = xs @ x # ys" and u: "u \<in> set ys" and a: "x \<in> set (adj u)"
    unfolding later_parent_def by blast
  have r: "rev out = rev ys @ x # rev xs" using o by simp
  from u have "u \<in> set (rev ys)" by simp
  then have "\<exists>k<length (rev ys). rev ys ! k = u" by (simp only: in_set_conv_nth)
  then obtain k where k: "k < length (rev ys)" "rev ys ! k = u" by blast
  have "rev out ! length ys = x" using r by (simp add: nth_append)
  moreover have "rev out ! k = u" using r k by (simp add: nth_append)
  moreover have "length ys < length out" using o by simp
  ultimately show ?thesis using that [of "length ys" k] k(1) a by simp
qed

lemma closed_reach:
  assumes "\<forall>x\<in>S. set (adj x) \<subseteq> S" "(a, b) \<in> (edge_rel adj)\<^sup>*" "a \<in> S"
  shows "b \<in> S"
  using assms(2,3,1)
proof (induction rule: rtrancl_induct)
  case base
  then show ?case by simp
next
  case (step y z)
  from step.IH step.prems have "y \<in> S" by simp
  with step.hyps(2) step.prems(2) show ?case by (auto simp: edge_rel_def)
qed

lemma dfs_post_reach:
  assumes p: "dfs_post adj V {} rs out" and s: "set rs \<subseteq> set out"
  shows "set out = (edge_rel adj)\<^sup>* `` set rs"
proof
  from p have r: "\<forall>x\<in>set out. \<exists>t\<in>set rs. (t, x) \<in> (edge_rel adj)\<^sup>*"
    unfolding dfs_post_def by simp
  then show "set out \<subseteq> (edge_rel adj)\<^sup>* `` set rs" by auto
  from p have c: "\<forall>x\<in>set out. set (adj x) \<subseteq> set out" unfolding dfs_post_def by simp
  show "(edge_rel adj)\<^sup>* `` set rs \<subseteq> set out"
  proof
    fix b assume "b \<in> (edge_rel adj)\<^sup>* `` set rs"
    then obtain a where a: "a \<in> set rs" "(a, b) \<in> (edge_rel adj)\<^sup>*" by auto
    with s have "a \<in> set out" by blast
    from closed_reach [OF c a(2) this] show "b \<in> set out" .
  qed
qed

section \<open>The dominator iteration returns\<close>

lemma wf_cfg_succs:
  assumes "wf_cfg func"
  shows "finite (set (getBasicBlockList func))"
    "\<forall>v\<in>set (getBasicBlockList func). set (getSuccessors func v) \<subseteq> set (getBasicBlockList func)"
    "\<forall>v\<in>set (getBasicBlockList func). set (getPredecessors func v) \<subseteq> set (getBasicBlockList func)"
    "getEntryBlock func \<in> set (getBasicBlockList func)"
  using assms unfolding wf_cfg_def by simp_all

lemma wf_cfg_mirror:
  assumes "wf_cfg func" "u \<in> set (getBasicBlockList func)" "v \<in> set (getBasicBlockList func)"
  shows "v \<in> set (getSuccessors func u) \<longleftrightarrow> u \<in> set (getPredecessors func v)"
  using assms unfolding wf_cfg_def by blast

lemma hd_rev_nth: "out \<noteq> [] \<Longrightarrow> rev out ! 0 = last out"
  by (simp add: hd_rev [symmetric] hd_conv_nth)

lemma iterate_from_order:
  assumes d: "distinct rpo" and n: "0 < length rpo"
    and nb: "\<forall>i. 0 < i \<and> i < length rpo \<longrightarrow> (\<exists>ps. nbrs i = Some ps \<and> (\<exists>k<i. rpo ! k \<in> set ps))"
  shows "\<exists>T. iterate (set rpo) (build_bbToIdx rpo) nbrs 0 ((replicate (length rpo) (-1))[0 := 0]) = Some T \<and>
             chk_done (idx_nbrs (set rpo) (build_bbToIdx rpo) nbrs) (length rpo) T"
proof -
  let ?g = "idx_nbrs (set rpo) (build_bbToIdx rpo) nbrs"
  let ?n = "length rpo"
  have g: "rpo_graph ?n ?g" and ok: "nbrs_ok ?n (set rpo) (build_bbToIdx rpo) nbrs"
    using graph_from_order [OF d n nb] by simp_all
  have l: "length ((replicate ?n (-1))[0 := 0] :: int list) = ?n" by simp
  from iterate_total [OF g ok l chk_inv_init [OF n]] g
  show ?thesis unfolding chk_done_def by blast
qed

lemma computeIDoms_total:
  assumes wf: "wf_cfg func"
  shows "\<exists>out T. computeIDoms func = Some (rev out, T) \<and>
           dfs_post (getSuccessors func) (set (getBasicBlockList func)) {} [getEntryBlock func] out \<and>
           out \<noteq> [] \<and> last out = getEntryBlock func \<and>
           chk_done (dom_graph func (rev out)) (length out) T"
proof -
  let ?V = "set (getBasicBlockList func)"
  let ?e = "getEntryBlock func"
  note w = wf_cfg_succs [OF wf]
  from rpo_single [OF w(1,2,4)] obtain out where
    r: "getReversePostOrder (getSuccessors func) [?e] = Some (set out, rev out)"
    and p: "dfs_post (getSuccessors func) ?V {} [?e] out" and ne: "out \<noteq> []" and la: "last out = ?e"
    by blast
  let ?rpo = "rev out"
  from p have d: "distinct out" and oV: "set out \<subseteq> ?V"
    and lp: "\<forall>x\<in>set out. x \<in> set [?e] \<or> later_parent (getSuccessors func) out x"
    unfolding dfs_post_def by simp_all
  have dr: "distinct ?rpo" using d by simp
  have n: "0 < length ?rpo" using ne by simp
  have r0: "?rpo ! 0 = ?e" using hd_rev_nth [OF ne] la by simp
  have root: "idx_of (build_bbToIdx ?rpo) ?e = 0"
    using idx_of_nth [OF dr n] r0 by simp
  let ?nbrs = "\<lambda>i. Some (getPredecessors func (?rpo ! i))"
  have nb: "\<forall>i. 0 < i \<and> i < length ?rpo \<longrightarrow> (\<exists>ps. ?nbrs i = Some ps \<and> (\<exists>k<i. ?rpo ! k \<in> set ps))"
  proof (intro allI impI)
    fix i assume i: "0 < i \<and> i < length ?rpo"
    let ?x = "?rpo ! i"
    from i have xm: "?x \<in> set out" using nth_mem [of i ?rpo] by simp
    from i dr n r0 have "?x \<noteq> ?e" by (metis nth_eq_iff_index_eq less_numeral_extra(3))
    with lp xm have "later_parent (getSuccessors func) out ?x" by auto
    from later_parent_rev [OF d this] obtain i' k where
      ik: "i' < length out" "?rpo ! i' = ?x" "k < i'" "?x \<in> set (getSuccessors func (?rpo ! k))"
      by blast
    from ik(1,2) i dr have ii: "i' = i" by (simp add: nth_eq_iff_index_eq)
    from ik(1,3) have "?rpo ! k \<in> set out" using nth_mem [of k ?rpo] by simp
    with oV have uV: "?rpo ! k \<in> ?V" by blast
    from xm oV have xV: "?x \<in> ?V" by blast
    from wf_cfg_mirror [OF wf uV xV] ik(4) have "?rpo ! k \<in> set (getPredecessors func ?x)" by simp
    with ik(3) ii show "\<exists>ps. ?nbrs i = Some ps \<and> (\<exists>k<i. ?rpo ! k \<in> set ps)" by blast
  qed
  from iterate_from_order [OF dr n nb] obtain T where
    it: "iterate (set ?rpo) (build_bbToIdx ?rpo) ?nbrs 0 ((replicate (length ?rpo) (-1))[0 := 0]) = Some T"
    and dn: "chk_done (idx_nbrs (set ?rpo) (build_bbToIdx ?rpo) ?nbrs) (length ?rpo) T" by blast
  have "computeIDoms func = Some (?rpo, T)"
    using r root n it by (simp add: computeIDoms_def Let_def)
  moreover have "chk_done (dom_graph func ?rpo) (length out) T" using dn by (simp add: dom_graph_def)
  ultimately show ?thesis using p ne la by blast
qed

section \<open>The post-dominator iteration returns\<close>

lemma exitBBs_set:
  assumes "set_iteration iter"
  shows "set (exitBBs iter func) = exit_blocks func" "distinct (exitBBs iter func)"
  using assms by (auto simp: exitBBs_def exit_blocks_def set_iteration_def)

lemma exit_not_pred:
  assumes wf: "wf_cfg func" and r: "r \<in> exit_blocks func" and u: "u \<in> set (getBasicBlockList func)"
  shows "r \<notin> set (getPredecessors func u)"
proof
  assume a: "r \<in> set (getPredecessors func u)"
  from r have rV: "r \<in> set (getBasicBlockList func)" and s: "getSuccessors func r = []"
    by (simp_all add: exit_blocks_def)
  from wf_cfg_mirror [OF wf rV u] a have "u \<in> set (getSuccessors func r)" by simp
  with s show False by simp
qed

lemma computeIPdoms_total:
  assumes wf: "wf_cfg func" and it: "set_iteration iter"
  shows "\<exists>out T. computeIPdoms iter func = Some (None # map Some (rev out), T) \<and>
           dfs_post (getPredecessors func) (set (getBasicBlockList func)) {} (exitBBs iter func) out \<and>
           set (exitBBs iter func) \<subseteq> set out \<and>
           chk_done (postdom_graph func (None # map Some (rev out))) (Suc (length out)) T"
proof -
  let ?V = "set (getBasicBlockList func)"
  let ?rs = "exitBBs iter func"
  note w = wf_cfg_succs [OF wf]
  note ex = exitBBs_set [OF it, of func]
  have rsV: "set ?rs \<subseteq> ?V" using ex(1) by (auto simp: exit_blocks_def)
  have src: "\<forall>r\<in>set ?rs. \<forall>u\<in>?V. r \<notin> set (getPredecessors func u)"
    using exit_not_pred [OF wf] ex(1) by blast
  from rpo_roots [OF w(1,3) rsV ex(2) src] obtain out where
    r: "getReversePostOrder (getPredecessors func) ?rs = Some (set out, rev out)"
    and p: "dfs_post (getPredecessors func) ?V {} ?rs out" and rs: "set ?rs \<subseteq> set out"
    by blast
  let ?rpo = "None # map Some (rev out)"
  from p have d: "distinct out" and oV: "set out \<subseteq> ?V"
    and lp: "\<forall>x\<in>set out. x \<in> set ?rs \<or> later_parent (getPredecessors func) out x"
    unfolding dfs_post_def by simp_all
  have dr: "distinct ?rpo" using d by (auto simp: distinct_map)
  have n: "0 < length ?rpo" by simp
  have sr: "set ?rpo = insert None (Some ` set out)" by simp
  let ?nbrs = "\<lambda>i. successorsOrExit func (?rpo ! i)"
  have nb: "\<forall>i. 0 < i \<and> i < length ?rpo \<longrightarrow> (\<exists>ps. ?nbrs i = Some ps \<and> (\<exists>k<i. ?rpo ! k \<in> set ps))"
  proof (intro allI impI)
    fix i assume i: "0 < i \<and> i < length ?rpo"
    then obtain j where j: "i = Suc j" "j < length out" by (cases i) auto
    let ?x = "rev out ! j"
    have xi: "?rpo ! i = Some ?x" using j by simp
    from j have xm: "?x \<in> set out" using nth_mem [of j "rev out"] by simp
    show "\<exists>ps. ?nbrs i = Some ps \<and> (\<exists>k<i. ?rpo ! k \<in> set ps)"
    proof (cases "getSuccessors func ?x = []")
      case True
      then have "?nbrs i = Some [None]" using xi by (simp add: successorsOrExit_def)
      moreover have "?rpo ! 0 \<in> set [None]" by simp
      ultimately show ?thesis using i by blast
    next
      case False
      then have "?x \<notin> exit_blocks func" by (simp add: exit_blocks_def)
      with lp xm ex(1) have "later_parent (getPredecessors func) out ?x" by auto
      from later_parent_rev [OF d this] obtain i' k where
        ik: "i' < length out" "rev out ! i' = ?x" "k < i'" "?x \<in> set (getPredecessors func (rev out ! k))"
        by blast
      from ik(1,2) j d have ii: "i' = j" by (simp add: nth_eq_iff_index_eq)
      from ik(1,3) have "rev out ! k \<in> set out" using nth_mem [of k "rev out"] by simp
      with oV have uV: "rev out ! k \<in> ?V" by blast
      from xm oV have xV: "?x \<in> ?V" by blast
      from wf_cfg_mirror [OF wf xV uV] ik(4) have "rev out ! k \<in> set (getSuccessors func ?x)" by simp
      then have "Some (rev out ! k) \<in> set (map Some (getSuccessors func ?x))" by simp
      moreover have "?rpo ! Suc k = Some (rev out ! k)" using ik(1,3) by simp
      moreover have "?nbrs i = Some (map Some (getSuccessors func ?x))"
        using xi False by (simp add: successorsOrExit_def)
      moreover have "Suc k < i" using ik(3) ii j by simp
      ultimately show ?thesis by metis
    qed
  qed
  from iterate_from_order [OF dr n nb] obtain T where
    itr: "iterate (set ?rpo) (build_bbToIdx ?rpo) ?nbrs 0 ((replicate (length ?rpo) (-1))[0 := 0]) = Some T"
    and dn: "chk_done (idx_nbrs (set ?rpo) (build_bbToIdx ?rpo) ?nbrs) (length ?rpo) T" by blast
  have "computeIPdoms iter func = Some (?rpo, T)"
    using r itr sr by (simp add: computeIPdoms_def Let_def)
  moreover have "chk_done (postdom_graph func ?rpo) (Suc (length out)) T"
    using dn by (simp add: postdom_graph_def)
  ultimately show ?thesis using p rs by blast
qed

section \<open>Inserting edges into the maps\<close>

lemma foldM_append:
  "foldM f (xs @ ys) s = (case foldM f xs s of None \<Rightarrow> None | Some s' \<Rightarrow> foldM f ys s')"
  by (induction xs arbitrary: s) (simp_all split: option.splits)

lemma add_edges_empty: "add_edges m {} = m"
  by (simp add: add_edges_def)

lemma insert_edge_add: "insert_edge (add_edges m E) k c = add_edges m (insert (k, c) E)"
proof (rule ext)
  fix x
  show "insert_edge (add_edges m E) k c x = add_edges m (insert (k, c) E) x"
  proof (cases "x = k")
    case False
    then have "insert (k, c) E `` {x} = E `` {x}" by auto
    with False show ?thesis by (simp add: insert_edge_def add_edges_def)
  next
    case True
    have i: "insert (k, c) E `` {k} = insert c (E `` {k})" by auto
    show ?thesis
      unfolding True insert_edge_def add_edges_def i
      by (cases "m k") auto
  qed
qed

lemma add_edges_add: "add_edges (add_edges m E) F = add_edges m (E \<union> F)"
proof (rule ext)
  fix x
  have u: "(E \<union> F) `` {x} = E `` {x} \<union> F `` {x}" by auto
  show "add_edges (add_edges m E) F x = add_edges m (E \<union> F) x"
    unfolding add_edges_def u by (cases "m x") auto
qed

lemma add_edges_idem: "add_edges (add_edges m E) E = add_edges m E"
  by (simp add: add_edges_add)

lemma dom_add_edges: "dom (add_edges m E) = dom m \<union> Domain E"
  by (auto simp: add_edges_def dom_def split: if_splits)

lemma ran_add_edges: "\<Union>(ran (add_edges m E)) = \<Union>(ran m) \<union> Range E"
proof
  show "\<Union>(ran (add_edges m E)) \<subseteq> \<Union>(ran m) \<union> Range E"
  proof
    fix c assume "c \<in> \<Union>(ran (add_edges m E))"
    then obtain k S where k: "add_edges m E k = Some S" "c \<in> S" by (auto simp: ran_def)
    show "c \<in> \<Union>(ran m) \<union> Range E"
    proof (cases "E `` {k} = {}")
      case True
      with k have "m k = Some S" by (simp add: add_edges_def)
      with k(2) show ?thesis by (auto simp: ran_def)
    next
      case False
      with k have "S = (case m k of None \<Rightarrow> {} | Some s \<Rightarrow> s) \<union> E `` {k}"
        by (simp add: add_edges_def)
      with k(2) show ?thesis by (cases "m k") (auto simp: ran_def)
    qed
  qed
  show "\<Union>(ran m) \<union> Range E \<subseteq> \<Union>(ran (add_edges m E))"
  proof
    fix c assume "c \<in> \<Union>(ran m) \<union> Range E"
    then show "c \<in> \<Union>(ran (add_edges m E))"
    proof
      assume "c \<in> \<Union>(ran m)"
      then obtain k S where k: "m k = Some S" "c \<in> S" by (auto simp: ran_def)
      then have "\<exists>S'. add_edges m E k = Some S' \<and> c \<in> S'" by (simp add: add_edges_def)
      then show ?thesis by (auto simp: ran_def)
    next
      assume "c \<in> Range E"
      then obtain k where k: "(k, c) \<in> E" by auto
      then have "E `` {k} \<noteq> {}" "c \<in> E `` {k}" by auto
      then have "\<exists>S'. add_edges m E k = Some S' \<and> c \<in> S'" by (simp add: add_edges_def)
      then show ?thesis by (auto simp: ran_def)
    qed
  qed
qed

lemma map_nodes_add_edges: "map_nodes (add_edges m E) = map_nodes m \<union> Field E"
  unfolding map_nodes_def dom_add_edges ran_add_edges Field_def by auto

lemma edges_add_edges: "edges (add_edges m E) = edges m \<union> E"
proof -
  have "\<And>k c. (k, c) \<in> edges (add_edges m E) \<longleftrightarrow> (k, c) \<in> edges m \<union> E"
  proof -
    fix k c
    show "(k, c) \<in> edges (add_edges m E) \<longleftrightarrow> (k, c) \<in> edges m \<union> E"
      unfolding edges_def add_edges_def by (cases "m k") auto
  qed
  then show ?thesis by auto
qed

lemma edges_empty: "edges Map.empty = {}"
  by (simp add: edges_def)

lemma map_nodes_empty: "map_nodes Map.empty = {}"
  by (simp add: map_nodes_def)

section \<open>The maps that the computations produce\<close>

lemma chk_done_range:
  assumes "chk_done g n T" "j < n"
  shows "T ! j \<noteq> -1" "0 \<le> T ! j" "nat (T ! j) < n" "0 < j \<Longrightarrow> T ! j < int j" "j = 0 \<Longrightarrow> T ! j = 0"
proof -
  from assms(1) have inv: "chk_inv g T n" and len: "length T = n" by (simp_all add: chk_done_def)
  from chk_inv_final(1) [OF inv len assms(2)] show p: "T ! j \<noteq> -1" by (simp add: proc_def)
  from inv have v: "valid T" by (simp add: chk_inv_def)
  then have z: "T ! 0 = 0" by (simp add: valid_def)
  show "0 \<le> T ! j" using chk_inv_final(2) [OF inv len assms(2)] z by (cases "j = 0") simp_all
  show "nat (T ! j) < n" using chk_inv_final(2) [OF inv len assms(2)] z assms(2)
    by (cases "j = 0") auto
  show "0 < j \<Longrightarrow> T ! j < int j" using chk_inv_final(2) [OF inv len assms(2)] by simp
  show "j = 0 \<Longrightarrow> T ! j = 0" using z by simp
qed

lemma dom_edges_Suc:
  "dom_edges rpo T (Suc k) =
     (if T ! k \<noteq> -1 \<and> int k \<noteq> T ! k
      then insert (Some (rpo ! nat (T ! k)), Some (rpo ! k)) (dom_edges rpo T k)
      else dom_edges rpo T k)"
  unfolding dom_edges_def by (auto simp: less_Suc_eq)

lemma postdom_edges_Suc:
  "1 \<le> k \<Longrightarrow> postdom_edges rpo T (Suc k) =
     (if T ! k \<noteq> 0 \<and> T ! k \<noteq> -1 \<and> int k \<noteq> T ! k
      then insert (rpo ! nat (T ! k), rpo ! k) (postdom_edges rpo T k)
      else postdom_edges rpo T k)"
  unfolding postdom_edges_def by (auto simp: less_Suc_eq)

lemma populateDom_fold:
  assumes rng: "\<forall>i<length rpo. 0 \<le> T ! i \<and> nat (T ! i) < length rpo"
  shows "k \<le> length rpo \<Longrightarrow>
    foldM (populateDom rpo T) [0..<k] m = Some (add_edges m (dom_edges rpo T k))"
proof (induction k)
  case 0
  then show ?case by (simp add: dom_edges_def add_edges_empty)
next
  case (Suc k)
  from Suc.prems have kl: "k < length rpo" by simp
  with rng have r: "0 \<le> T ! k \<and> nat (T ! k) < length rpo" by simp
  from Suc have f: "foldM (populateDom rpo T) [0..<k] m = Some (add_edges m (dom_edges rpo T k))"
    by simp
  have s: "populateDom rpo T k (add_edges m (dom_edges rpo T k)) =
           Some (add_edges m (dom_edges rpo T (Suc k)))"
    using r by (simp add: populateDom_def Let_def insert_edge_add dom_edges_Suc)
  have "[0..<Suc k] = [0..<k] @ [k]" by simp
  then show ?case using f s by (simp only: foldM_append) simp
qed

lemma populatePostDom_fold:
  assumes rng: "\<forall>i<length rpo. 0 \<le> T ! i \<and> nat (T ! i) < length rpo"
  shows "k < length rpo \<Longrightarrow>
    foldM (populatePostDom rpo T) [1..<Suc k] m = Some (add_edges m (postdom_edges rpo T (Suc k)))"
proof (induction k)
  case 0
  have "postdom_edges rpo T (Suc 0) = {}" by (auto simp: postdom_edges_def)
  then show ?case by (simp add: add_edges_empty)
next
  case (Suc k)
  from Suc.prems have kl: "Suc k < length rpo" by simp
  with rng have r: "0 \<le> T ! Suc k \<and> nat (T ! Suc k) < length rpo" by simp
  from Suc have f: "foldM (populatePostDom rpo T) [1..<Suc k] m =
      Some (add_edges m (postdom_edges rpo T (Suc k)))" by simp
  have s: "populatePostDom rpo T (Suc k) (add_edges m (postdom_edges rpo T (Suc k))) =
           Some (add_edges m (postdom_edges rpo T (Suc (Suc k))))"
    using r by (simp add: populatePostDom_def Let_def insert_edge_add postdom_edges_Suc)
  have "[1..<Suc (Suc k)] = [1..<Suc k] @ [Suc k]" by simp
  then show ?case using f s by (simp only: foldM_append) simp
qed

text \<open>The two computations return, and add to the map a set of edges that depends on the function only.\<close>

lemma computeDominators_result:
  assumes wf: "wf_cfg func"
  shows "\<exists>out T. computeIDoms func = Some (rev out, T) \<and>
           dfs_post (getSuccessors func) (set (getBasicBlockList func)) {} [getEntryBlock func] out \<and>
           out \<noteq> [] \<and> last out = getEntryBlock func \<and>
           chk_done (dom_graph func (rev out)) (length out) T \<and>
           (\<forall>info. computeDominators func info =
              Some (info\<lparr>getDomTreeMap :=
                      add_edges (getDomTreeMap info) (dom_edges (rev out) T (length out))\<rparr>))"
proof -
  from computeIDoms_total [OF wf] obtain out T where
    c: "computeIDoms func = Some (rev out, T)"
    and p: "dfs_post (getSuccessors func) (set (getBasicBlockList func)) {} [getEntryBlock func] out"
    and o: "out \<noteq> []" "last out = getEntryBlock func"
    and d: "chk_done (dom_graph func (rev out)) (length out) T" by blast
  have rng: "\<forall>i<length (rev out). 0 \<le> T ! i \<and> nat (T ! i) < length (rev out)"
    using chk_done_range(2,3) [OF d] by simp
  have "\<forall>info. computeDominators func info =
              Some (info\<lparr>getDomTreeMap :=
                      add_edges (getDomTreeMap info) (dom_edges (rev out) T (length out))\<rparr>)"
    using c populateDom_fold [OF rng, of "length out"] by (simp add: computeDominators_def)
  with c p o d show ?thesis by blast
qed

lemma computePostDominators_result:
  assumes wf: "wf_cfg func" and it: "set_iteration iter"
  shows "\<exists>out T. computeIPdoms iter func = Some (None # map Some (rev out), T) \<and>
           dfs_post (getPredecessors func) (set (getBasicBlockList func)) {} (exitBBs iter func) out \<and>
           set (exitBBs iter func) \<subseteq> set out \<and>
           chk_done (postdom_graph func (None # map Some (rev out))) (Suc (length out)) T \<and>
           (\<forall>info. computePostDominators iter func info =
              Some (info\<lparr>getPostDomTreeMap :=
                      add_edges (getPostDomTreeMap info)
                        (postdom_edges (None # map Some (rev out)) T (Suc (length out)))\<rparr>))"
proof -
  from computeIPdoms_total [OF wf it] obtain out T where
    c: "computeIPdoms iter func = Some (None # map Some (rev out), T)"
    and p: "dfs_post (getPredecessors func) (set (getBasicBlockList func)) {} (exitBBs iter func) out"
    and o: "set (exitBBs iter func) \<subseteq> set out"
    and d: "chk_done (postdom_graph func (None # map Some (rev out))) (Suc (length out)) T" by blast
  let ?rpo = "None # map Some (rev out)"
  have rng: "\<forall>i<length ?rpo. 0 \<le> T ! i \<and> nat (T ! i) < length ?rpo"
    using chk_done_range(2,3) [OF d] by simp
  have "\<forall>info. computePostDominators iter func info =
              Some (info\<lparr>getPostDomTreeMap :=
                      add_edges (getPostDomTreeMap info) (postdom_edges ?rpo T (Suc (length out)))\<rparr>)"
    using c populatePostDom_fold [OF rng, of "length out"] by (simp add: computePostDominators_def)
  with c p o d show ?thesis by blast
qed

section \<open>The parent edges form a tree\<close>

lemma parent_edges_tree:
  assumes d: "distinct ps" and n: "0 < length ps"
    and par: "\<forall>i. 0 < i \<and> i < length ps \<longrightarrow> 0 \<le> T ! i \<and> T ! i < int i"
  shows "tree_over (parent_edges ps T) (ps ! 0) (set ps)"
proof -
  let ?n = "length ps"
  let ?E = "parent_edges ps T"
  let ?f = "\<lambda>i. (ps ! nat (T ! i), ps ! i)"
  let ?pos = "idx_of (build_bbToIdx ps)"
  have pl: "\<And>i. 0 < i \<Longrightarrow> i < ?n \<Longrightarrow> nat (T ! i) < i"
  proof -
    fix i assume "0 < i" "i < ?n"
    with par have "0 \<le> T ! i \<and> T ! i < int i" by simp
    then show "nat (T ! i) < i" by linarith
  qed
  have E: "?E = ?f ` {1..<?n}" unfolding parent_edges_def by auto
  have inj: "inj_on ?f {1..<?n}"
  proof (rule inj_onI)
    fix i j assume "i \<in> {1..<?n}" "j \<in> {1..<?n}" "?f i = ?f j"
    then have "ps ! i = ps ! j" "i < ?n" "j < ?n" by simp_all
    with d show "i = j" by (simp add: nth_eq_iff_index_eq)
  qed
  have c: "card ?E = card (set ps) - 1"
    using card_image [OF inj] d by (simp add: E distinct_card)
  have fld: "Field ?E \<subseteq> set ps"
  proof
    fix x assume "x \<in> Field ?E"
    then obtain i where i: "0 < i" "i < ?n" and x: "x = ps ! nat (T ! i) \<or> x = ps ! i"
      unfolding parent_edges_def Field_def by auto
    from pl [OF i] i(2) have "nat (T ! i) < ?n" by simp
    with x i(2) show "x \<in> set ps" by auto
  qed
  have sub: "?E \<subseteq> inv_image less_than ?pos"
  proof
    fix e assume "e \<in> ?E"
    then obtain i where i: "0 < i" "i < ?n" and e: "e = (ps ! nat (T ! i), ps ! i)"
      unfolding parent_edges_def by auto
    from pl [OF i] i(2) have l: "nat (T ! i) < ?n" by simp
    have "?pos (ps ! nat (T ! i)) = nat (T ! i)" by (rule idx_of_nth [OF d l])
    moreover have "?pos (ps ! i) = i" by (rule idx_of_nth [OF d i(2)])
    ultimately show "e \<in> inv_image less_than ?pos" using pl [OF i] e by simp
  qed
  have "wf (inv_image less_than ?pos)" by simp
  then have "wf ?E" using sub by (rule wf_subset)
  then have ac: "acyclic ?E" by (rule wf_acyclic)
  have up: "\<forall>b\<in>set ps - {ps ! 0}. \<exists>!p. (p, b) \<in> ?E"
  proof
    fix b assume b: "b \<in> set ps - {ps ! 0}"
    then have "\<exists>i<length ps. ps ! i = b" by (simp add: in_set_conv_nth)
    then obtain i where i: "i < ?n" "ps ! i = b" by blast
    with b have i0: "0 < i" by (cases "i = 0") auto
    show "\<exists>!p. (p, b) \<in> ?E"
    proof
      show "(ps ! nat (T ! i), b) \<in> ?E" using i i0 unfolding parent_edges_def by blast
    next
      fix p assume "(p, b) \<in> ?E"
      then obtain j where j: "0 < j" "j < ?n" "p = ps ! nat (T ! j)" "b = ps ! j"
        unfolding parent_edges_def by auto
      from j(2,4) i d have "j = i" by (simp add: nth_eq_iff_index_eq)
      with j(3) show "p = ps ! nat (T ! i)" by simp
    qed
  qed
  have nr: "\<forall>p. (p, ps ! 0) \<notin> ?E"
  proof (intro allI notI)
    fix p assume "(p, ps ! 0) \<in> ?E"
    then obtain j where j: "0 < j" "j < ?n" "ps ! 0 = ps ! j" unfolding parent_edges_def by auto
    with d n have "0 = j" by (simp add: nth_eq_iff_index_eq)
    with j(1) show False by simp
  qed
  from fld c ac up nr show ?thesis unfolding tree_over_def by blast
qed

lemma chk_done_parent:
  assumes "chk_done g n T"
  shows "\<forall>i. 0 < i \<and> i < n \<longrightarrow> 0 \<le> T ! i \<and> T ! i < int i"
  using chk_done_range(2,4) [OF assms] by blast

lemma dom_edges_parent:
  assumes dn: "chk_done g (length rpo) T"
  shows "dom_edges rpo T (length rpo) = parent_edges (map Some rpo) T"
proof -
  have a: "\<And>i. i < length rpo \<Longrightarrow> (T ! i \<noteq> -1 \<and> int i \<noteq> T ! i) \<longleftrightarrow> 0 < i"
  proof -
    fix i assume i: "i < length rpo"
    show "(T ! i \<noteq> -1 \<and> int i \<noteq> T ! i) \<longleftrightarrow> 0 < i"
      using chk_done_range(1,4,5) [OF dn i] by (cases "i = 0") auto
  qed
  have b: "\<And>i. i < length rpo \<Longrightarrow> map Some rpo ! nat (T ! i) = Some (rpo ! nat (T ! i))"
    using chk_done_range(3) [OF dn] by simp
  show ?thesis
  proof
    show "dom_edges rpo T (length rpo) \<subseteq> parent_edges (map Some rpo) T"
    proof
      fix e assume "e \<in> dom_edges rpo T (length rpo)"
      then obtain i where i: "i < length rpo" "T ! i \<noteq> -1 \<and> int i \<noteq> T ! i"
        and e: "e = (Some (rpo ! nat (T ! i)), Some (rpo ! i))"
        unfolding dom_edges_def by auto
      from a [OF i(1)] i(2) have i0: "0 < i" by simp
      have "e = (map Some rpo ! nat (T ! i), map Some rpo ! i)" using e b [OF i(1)] i(1) by simp
      with i0 i(1) show "e \<in> parent_edges (map Some rpo) T" unfolding parent_edges_def by auto
    qed
    show "parent_edges (map Some rpo) T \<subseteq> dom_edges rpo T (length rpo)"
    proof
      fix e assume "e \<in> parent_edges (map Some rpo) T"
      then obtain i where i: "0 < i" "i < length rpo"
        and e: "e = (map Some rpo ! nat (T ! i), map Some rpo ! i)"
        unfolding parent_edges_def by auto
      have "e = (Some (rpo ! nat (T ! i)), Some (rpo ! i))" using e b [OF i(2)] i(2) by simp
      moreover from a [OF i(2)] i(1) have "T ! i \<noteq> -1 \<and> int i \<noteq> T ! i" by simp
      ultimately show "e \<in> dom_edges rpo T (length rpo)" using i(2) unfolding dom_edges_def by blast
    qed
  qed
qed

lemma postdom_edges_parent:
  assumes dn: "chk_done g (length rpo) T"
  shows "postdom_edges rpo T (length rpo) \<union>
           {(rpo ! 0, rpo ! i) |i. 0 < i \<and> i < length rpo \<and> T ! i = 0} = parent_edges rpo T"
proof -
  have a: "\<And>i. 0 < i \<Longrightarrow> i < length rpo \<Longrightarrow> T ! i \<noteq> -1 \<and> int i \<noteq> T ! i"
  proof -
    fix i assume i: "0 < i" "i < length rpo"
    show "T ! i \<noteq> -1 \<and> int i \<noteq> T ! i"
      using chk_done_range(1,4) [OF dn i(2)] i(1) by auto
  qed
  show ?thesis
  proof
    show "postdom_edges rpo T (length rpo) \<union>
           {(rpo ! 0, rpo ! i) |i. 0 < i \<and> i < length rpo \<and> T ! i = 0} \<subseteq> parent_edges rpo T"
    proof
      fix e assume "e \<in> postdom_edges rpo T (length rpo) \<union>
           {(rpo ! 0, rpo ! i) |i. 0 < i \<and> i < length rpo \<and> T ! i = 0}"
      then show "e \<in> parent_edges rpo T"
      proof
        assume "e \<in> postdom_edges rpo T (length rpo)"
        then obtain i where "1 \<le> i" "i < length rpo" "e = (rpo ! nat (T ! i), rpo ! i)"
          unfolding postdom_edges_def by blast
        then have "0 < i \<and> i < length rpo \<and> e = (rpo ! nat (T ! i), rpo ! i)" by simp
        then show ?thesis unfolding parent_edges_def by blast
      next
        assume "e \<in> {(rpo ! 0, rpo ! i) |i. 0 < i \<and> i < length rpo \<and> T ! i = 0}"
        then obtain i where "0 < i" "i < length rpo" "T ! i = 0" "e = (rpo ! 0, rpo ! i)" by blast
        then have "0 < i \<and> i < length rpo \<and> e = (rpo ! nat (T ! i), rpo ! i)" by simp
        then show ?thesis unfolding parent_edges_def by blast
      qed
    qed
    show "parent_edges rpo T \<subseteq> postdom_edges rpo T (length rpo) \<union>
           {(rpo ! 0, rpo ! i) |i. 0 < i \<and> i < length rpo \<and> T ! i = 0}"
    proof
      fix e assume "e \<in> parent_edges rpo T"
      then obtain i where i: "0 < i" "i < length rpo" and e: "e = (rpo ! nat (T ! i), rpo ! i)"
        unfolding parent_edges_def by auto
      show "e \<in> postdom_edges rpo T (length rpo) \<union>
           {(rpo ! 0, rpo ! i) |i. 0 < i \<and> i < length rpo \<and> T ! i = 0}"
      proof (cases "T ! i = 0")
        case True
        with i e have "0 < i \<and> i < length rpo \<and> T ! i = 0 \<and> e = (rpo ! 0, rpo ! i)" by simp
        then have "e \<in> {(rpo ! 0, rpo ! i) |i. 0 < i \<and> i < length rpo \<and> T ! i = 0}" by blast
        then show ?thesis by simp
      next
        case False
        with a [OF i] i e have "1 \<le> i \<and> i < length rpo \<and> T ! i \<noteq> 0 \<and> T ! i \<noteq> -1 \<and>
          int i \<noteq> T ! i \<and> e = (rpo ! nat (T ! i), rpo ! i)" by simp
        then have "e \<in> postdom_edges rpo T (length rpo)"
          unfolding postdom_edges_def by blast
        then show ?thesis by simp
      qed
    qed
  qed
qed

section \<open>The inserted edges, slot by slot\<close>

lemma postdom_edges_explicit:
  assumes dn: "chk_done g (length rpo) T"
  shows "postdom_edges rpo T (length rpo) =
           {(rpo ! nat (T ! i), rpo ! i) |i. 0 < i \<and> i < length rpo \<and> T ! i \<noteq> 0}"
proof -
  have a: "\<And>i. 0 < i \<Longrightarrow> i < length rpo \<Longrightarrow> T ! i \<noteq> -1 \<and> int i \<noteq> T ! i"
  proof -
    fix i assume i: "0 < i" "i < length rpo"
    show "T ! i \<noteq> -1 \<and> int i \<noteq> T ! i"
      using chk_done_range(1) [OF dn i(2)] chk_done_range(4) [OF dn i(2) i(1)] by simp
  qed
  show ?thesis
  proof (intro equalityI subsetI)
    fix x assume "x \<in> postdom_edges rpo T (length rpo)"
    then obtain i where "x = (rpo ! nat (T ! i), rpo ! i)" "1 \<le> i" "i < length rpo" "T ! i \<noteq> 0"
      unfolding postdom_edges_def by blast
    then have "x = (rpo ! nat (T ! i), rpo ! i) \<and> 0 < i \<and> i < length rpo \<and> T ! i \<noteq> 0" by simp
    then show "x \<in> {(rpo ! nat (T ! i), rpo ! i) |i. 0 < i \<and> i < length rpo \<and> T ! i \<noteq> 0}"
      by blast
  next
    fix x assume "x \<in> {(rpo ! nat (T ! i), rpo ! i) |i. 0 < i \<and> i < length rpo \<and> T ! i \<noteq> 0}"
    then obtain i where i: "x = (rpo ! nat (T ! i), rpo ! i)" "0 < i" "i < length rpo" "T ! i \<noteq> 0"
      by blast
    from a [OF i(2,3)] i
    have "x = (rpo ! nat (T ! i), rpo ! i) \<and> 1 \<le> i \<and> i < length rpo \<and> T ! i \<noteq> 0 \<and>
          T ! i \<noteq> -1 \<and> int i \<noteq> T ! i" by simp
    then show "x \<in> postdom_edges rpo T (length rpo)" unfolding postdom_edges_def by blast
  qed
qed

lemma dom_edges_explicit:
  assumes dn: "chk_done g (length rpo) T"
  shows "dom_edges rpo T (length rpo) =
           {(Some (rpo ! nat (T ! i)), Some (rpo ! i)) |i. 0 < i \<and> i < length rpo}"
proof -
  have a: "\<And>i. i < length rpo \<Longrightarrow> (T ! i \<noteq> -1 \<and> int i \<noteq> T ! i) \<longleftrightarrow> 0 < i"
  proof -
    fix i assume i: "i < length rpo"
    show "(T ! i \<noteq> -1 \<and> int i \<noteq> T ! i) \<longleftrightarrow> 0 < i"
      using chk_done_range(1,4,5) [OF dn i] by (cases "i = 0") auto
  qed
  show ?thesis
  proof (intro equalityI subsetI)
    fix x assume "x \<in> dom_edges rpo T (length rpo)"
    then obtain i where i: "x = (Some (rpo ! nat (T ! i)), Some (rpo ! i))" "i < length rpo"
      "T ! i \<noteq> -1 \<and> int i \<noteq> T ! i"
      unfolding dom_edges_def by blast
    with a [OF i(2)] have "x = (Some (rpo ! nat (T ! i)), Some (rpo ! i)) \<and> 0 < i \<and> i < length rpo"
      by simp
    then show "x \<in> {(Some (rpo ! nat (T ! i)), Some (rpo ! i)) |i. 0 < i \<and> i < length rpo}"
      by blast
  next
    fix x assume "x \<in> {(Some (rpo ! nat (T ! i)), Some (rpo ! i)) |i. 0 < i \<and> i < length rpo}"
    then obtain i where i: "x = (Some (rpo ! nat (T ! i)), Some (rpo ! i))" "0 < i" "i < length rpo"
      by blast
    with a [OF i(3)]
    have "x = (Some (rpo ! nat (T ! i)), Some (rpo ! i)) \<and> i < length rpo \<and>
          T ! i \<noteq> -1 \<and> int i \<noteq> T ! i" by simp
    then show "x \<in> dom_edges rpo T (length rpo)" unfolding dom_edges_def by blast
  qed
qed

lemma zero_slot_not_child:
  assumes d: "distinct rpo" and i: "i < length rpo" "T ! i = 0"
  shows "rpo ! i \<notin> Range {(rpo ! nat (T ! j), rpo ! j) |j. 0 < j \<and> j < length rpo \<and> T ! j \<noteq> 0}"
proof
  assume "rpo ! i \<in> Range {(rpo ! nat (T ! j), rpo ! j) |j. 0 < j \<and> j < length rpo \<and> T ! j \<noteq> 0}"
  then obtain j where j: "rpo ! i = rpo ! j" "j < length rpo" "T ! j \<noteq> 0" by blast
  from d i(1) j(2) j(1) have "i = j" by (simp add: nth_eq_iff_index_eq)
  with i(2) j(3) show False by simp
qed

section \<open>Properties of the analysis\<close>

lemma analyze_result:
  assumes wf: "wf_cfg func" and it: "set_iteration iter"
  shows "\<exists>out T outp Tp.
           computeIDoms func = Some (rev out, T) \<and>
           dfs_post (getSuccessors func) (set (getBasicBlockList func)) {} [getEntryBlock func] out \<and>
           out \<noteq> [] \<and> last out = getEntryBlock func \<and>
           chk_done (dom_graph func (rev out)) (length out) T \<and>
           computeIPdoms iter func = Some (None # map Some (rev outp), Tp) \<and>
           dfs_post (getPredecessors func) (set (getBasicBlockList func)) {} (exitBBs iter func) outp \<and>
           set (exitBBs iter func) \<subseteq> set outp \<and>
           chk_done (postdom_graph func (None # map Some (rev outp))) (Suc (length outp)) Tp \<and>
           (\<forall>info. analyze iter func info =
              Some \<lparr>getDomTreeMap =
                      add_edges (getDomTreeMap info) (dom_edges (rev out) T (length out)),
                    getPostDomTreeMap =
                      add_edges (getPostDomTreeMap info)
                        (postdom_edges (None # map Some (rev outp)) Tp (Suc (length outp)))\<rparr>)"
proof -
  from computeDominators_result [OF wf] obtain out T where
    d: "computeIDoms func = Some (rev out, T)"
    "dfs_post (getSuccessors func) (set (getBasicBlockList func)) {} [getEntryBlock func] out"
    "out \<noteq> []" "last out = getEntryBlock func"
    "chk_done (dom_graph func (rev out)) (length out) T"
    and dr: "\<forall>info. computeDominators func info =
              Some (info\<lparr>getDomTreeMap :=
                      add_edges (getDomTreeMap info) (dom_edges (rev out) T (length out))\<rparr>)"
    by blast
  from computePostDominators_result [OF wf it] obtain outp Tp where
    p: "computeIPdoms iter func = Some (None # map Some (rev outp), Tp)"
    "dfs_post (getPredecessors func) (set (getBasicBlockList func)) {} (exitBBs iter func) outp"
    "set (exitBBs iter func) \<subseteq> set outp"
    "chk_done (postdom_graph func (None # map Some (rev outp))) (Suc (length outp)) Tp"
    and pr: "\<forall>info. computePostDominators iter func info =
              Some (info\<lparr>getPostDomTreeMap :=
                      add_edges (getPostDomTreeMap info)
                        (postdom_edges (None # map Some (rev outp)) Tp (Suc (length outp)))\<rparr>)"
    by blast
  have "\<forall>info. analyze iter func info =
              Some \<lparr>getDomTreeMap =
                      add_edges (getDomTreeMap info) (dom_edges (rev out) T (length out)),
                    getPostDomTreeMap =
                      add_edges (getPostDomTreeMap info)
                        (postdom_edges (None # map Some (rev outp)) Tp (Suc (length outp)))\<rparr>"
    using dr pr by (simp add: analyze_def)
  with d p show ?thesis by blast
qed

lemma wf_cfg_diamond: "wf_cfg diamond"
  by (simp add: wf_cfg_def diamond_def)

lemma wf_cfg_twoExits: "wf_cfg twoExits"
  by (auto simp: wf_cfg_def twoExits_def)

lemma wf_cfg_oneBlock: "wf_cfg oneBlock"
  by (auto simp: wf_cfg_def oneBlock_def)

lemma wf_cfg_forked: "wf_cfg forked"
  by (auto simp: wf_cfg_def forked_def)

section \<open>The blocks in the maps\<close>

lemma postdom_edges_field:
  assumes rng: "\<forall>i<Suc (length out). 0 \<le> T ! i \<and> nat (T ! i) < Suc (length out)"
  shows "Field (postdom_edges (None # map Some (rev out)) T (Suc (length out))) \<subseteq> Some ` set out"
proof
  let ?rpo = "None # map Some (rev out)"
  fix x assume "x \<in> Field (postdom_edges ?rpo T (Suc (length out)))"
  then obtain i where i: "1 \<le> i" "i < Suc (length out)" "T ! i \<noteq> 0"
    and x: "x = ?rpo ! nat (T ! i) \<or> x = ?rpo ! i"
    unfolding postdom_edges_def Field_def by auto
  have real: "\<And>j. 1 \<le> j \<Longrightarrow> j < Suc (length out) \<Longrightarrow> ?rpo ! j \<in> Some ` set out"
  proof -
    fix j :: nat assume "1 \<le> j" "j < Suc (length out)"
    then obtain j' where j': "j = Suc j'" "j' < length out" by (cases j) auto
    then have "?rpo ! j = Some (rev out ! j')" by simp
    moreover have "rev out ! j' \<in> set out" using j'(2) nth_mem [of j' "rev out"] by simp
    ultimately show "?rpo ! j \<in> Some ` set out" by simp
  qed
  from rng i(2) have "0 \<le> T ! i" "nat (T ! i) < Suc (length out)" by simp_all
  with i(3) have "1 \<le> nat (T ! i)" by simp
  from real [OF this \<open>nat (T ! i) < Suc (length out)\<close>] real [OF i(1,2)] x
  show "x \<in> Some ` set out" by auto
qed

lemma dom_edges_field:
  assumes rng: "\<forall>i<length out. 0 \<le> T ! i \<and> nat (T ! i) < length out"
  shows "Field (dom_edges (rev out) T (length out)) \<subseteq> Some ` set out"
proof
  fix x assume "x \<in> Field (dom_edges (rev out) T (length out))"
  then obtain i where i: "i < length out"
    and x: "x = Some (rev out ! nat (T ! i)) \<or> x = Some (rev out ! i)"
    unfolding dom_edges_def Field_def by auto
  from rng i have "nat (T ! i) < length out" by simp
  then have "rev out ! nat (T ! i) \<in> set out" using nth_mem [of "nat (T ! i)" "rev out"] by simp
  moreover have "rev out ! i \<in> set out" using i nth_mem [of i "rev out"] by simp
  ultimately show "x \<in> Some ` set out" using x by auto
qed

text \<open>Paths along predecessor lists are paths along successor lists, backwards.\<close>

lemma pred_path_succ_path:
  assumes wf: "wf_cfg func"
  shows "(e, b) \<in> (edge_rel (getPredecessors func))\<^sup>* \<Longrightarrow> e \<in> set (getBasicBlockList func) \<Longrightarrow>
    b \<in> set (getBasicBlockList func) \<and> (b, e) \<in> (edge_rel (getSuccessors func))\<^sup>*"
proof (induction rule: rtrancl_induct)
  case base
  then show ?case by simp
next
  case (step y z)
  from step.IH [OF step.prems] have yV: "y \<in> set (getBasicBlockList func)"
    and ye: "(y, e) \<in> (edge_rel (getSuccessors func))\<^sup>*" by simp_all
  from step.hyps(2) have zp: "z \<in> set (getPredecessors func y)" by (simp add: edge_rel_def)
  with wf_cfg_succs(3) [OF wf] yV have zV: "z \<in> set (getBasicBlockList func)" by blast
  from wf_cfg_mirror [OF wf zV yV] zp have "(z, y) \<in> edge_rel (getSuccessors func)"
    by (simp add: edge_rel_def)
  from this ye have "(z, e) \<in> (edge_rel (getSuccessors func))\<^sup>*"
    by (rule converse_rtrancl_into_rtrancl)
  with zV show ?case by simp
qed

lemma succ_path_pred_path:
  assumes wf: "wf_cfg func"
  shows "(b, e) \<in> (edge_rel (getSuccessors func))\<^sup>* \<Longrightarrow> b \<in> set (getBasicBlockList func) \<Longrightarrow>
    e \<in> set (getBasicBlockList func) \<and> (e, b) \<in> (edge_rel (getPredecessors func))\<^sup>*"
proof (induction rule: rtrancl_induct)
  case base
  then show ?case by simp
next
  case (step y z)
  from step.IH [OF step.prems] have yV: "y \<in> set (getBasicBlockList func)"
    and yb: "(y, b) \<in> (edge_rel (getPredecessors func))\<^sup>*" by simp_all
  from step.hyps(2) have zs: "z \<in> set (getSuccessors func y)" by (simp add: edge_rel_def)
  with wf_cfg_succs(2) [OF wf] yV have zV: "z \<in> set (getBasicBlockList func)" by blast
  from wf_cfg_mirror [OF wf yV zV] zs have "(z, y) \<in> edge_rel (getPredecessors func)"
    by (simp add: edge_rel_def)
  from this yb have "(z, b) \<in> (edge_rel (getPredecessors func))\<^sup>*"
    by (rule converse_rtrancl_into_rtrancl)
  with zV show ?case by simp
qed

text \<open>The blocks that the two traversals visit.\<close>

lemma dom_order_set:
  assumes p: "dfs_post (getSuccessors func) V {} [getEntryBlock func] out"
    and o: "out \<noteq> []" "last out = getEntryBlock func"
  shows "set out = entry_reachable func"
proof -
  have "set [getEntryBlock func] \<subseteq> set out" using o last_in_set [of out] by auto
  from dfs_post_reach [OF p this] show ?thesis by (simp add: entry_reachable_def)
qed

lemma postdom_order_set:
  assumes wf: "wf_cfg func" and it: "set_iteration iter"
    and p: "dfs_post (getPredecessors func) V {} (exitBBs iter func) out"
    and s: "set (exitBBs iter func) \<subseteq> set out"
  shows "set out = exit_reaching func"
proof -
  have o: "set out = (edge_rel (getPredecessors func))\<^sup>* `` exit_blocks func"
    using dfs_post_reach [OF p s] exitBBs_set(1) [OF it] by simp
  have eV: "\<And>e. e \<in> exit_blocks func \<Longrightarrow> e \<in> set (getBasicBlockList func)"
    by (simp add: exit_blocks_def)
  show ?thesis
  proof
    show "set out \<subseteq> exit_reaching func"
    proof
      fix b assume "b \<in> set out"
      with o obtain e where e: "e \<in> exit_blocks func" "(e, b) \<in> (edge_rel (getPredecessors func))\<^sup>*"
        by auto
      from pred_path_succ_path [OF wf e(2) eV [OF e(1)]] e(1)
      show "b \<in> exit_reaching func" unfolding exit_reaching_def by blast
    qed
    show "exit_reaching func \<subseteq> set out"
    proof
      fix b assume "b \<in> exit_reaching func"
      then obtain e where bV: "b \<in> set (getBasicBlockList func)" and e: "e \<in> exit_blocks func"
        "(b, e) \<in> (edge_rel (getSuccessors func))\<^sup>*" unfolding exit_reaching_def by blast
      from succ_path_pred_path [OF wf e(2) bV] e(1) o show "b \<in> set out" by blast
    qed
  qed
qed


lemma wf_cfg_loopy: "wf_cfg loopy"
  by (auto simp: wf_cfg_def loopy_def)

lemma entry_reachable_computed:
  assumes wf: "wf_cfg func" and c: "computeIDoms func = Some (rpo, T)"
  shows "entry_reachable func = set rpo"
proof -
  from computeIDoms_total [OF wf] c obtain out where
    "rpo = rev out"
    "dfs_post (getSuccessors func) (set (getBasicBlockList func)) {} [getEntryBlock func] out"
    "out \<noteq> []" "last out = getEntryBlock func" by auto
  with dom_order_set [of func _ out] show ?thesis by simp
qed

lemma exit_reaching_computed:
  assumes wf: "wf_cfg func" and it: "set_iteration iter"
    and c: "computeIPdoms iter func = Some (rpo, T)"
  shows "Some ` exit_reaching func = set rpo - {None}"
proof -
  from computeIPdoms_total [OF wf it] c obtain out where
    r: "rpo = None # map Some (rev out)"
    and p: "dfs_post (getPredecessors func) (set (getBasicBlockList func)) {} (exitBBs iter func) out"
    "set (exitBBs iter func) \<subseteq> set out" by auto
  from postdom_order_set [OF wf it p] have "set out = exit_reaching func" .
  with r show ?thesis by auto
qed

text \<open>
  Claim C6. On a well-formed function \<open>analyze\<close> returns, and a block with no path from
  the entry block that was neither a key nor in a child set of the dominator map before
  is neither afterwards (so for maps that were empty before, it is absent); the same
  holds for the post-dominator map and a block with no path to an exit block.
\<close>

theorem unreachable_blocks_absent:
  assumes "wf_cfg func" and "set_iteration iter"
  shows "\<exists>info'. analyze iter func info = Some info' \<and>
           (\<forall>b. b \<notin> entry_reachable func \<and> Some b \<notin> map_nodes (getDomTreeMap info) \<longrightarrow>
                Some b \<notin> map_nodes (getDomTreeMap info')) \<and>
           (\<forall>b. b \<notin> exit_reaching func \<and> Some b \<notin> map_nodes (getPostDomTreeMap info) \<longrightarrow>
                Some b \<notin> map_nodes (getPostDomTreeMap info'))"
proof -
  from analyze_result [OF assms] obtain out T outp Tp where
    d: "dfs_post (getSuccessors func) (set (getBasicBlockList func)) {} [getEntryBlock func] out"
    "out \<noteq> []" "last out = getEntryBlock func"
    "chk_done (dom_graph func (rev out)) (length out) T"
    and p: "dfs_post (getPredecessors func) (set (getBasicBlockList func)) {} (exitBBs iter func) outp"
    "set (exitBBs iter func) \<subseteq> set outp"
    "chk_done (postdom_graph func (None # map Some (rev outp))) (Suc (length outp)) Tp"
    and a: "\<forall>info. analyze iter func info =
              Some \<lparr>getDomTreeMap =
                      add_edges (getDomTreeMap info) (dom_edges (rev out) T (length out)),
                    getPostDomTreeMap =
                      add_edges (getPostDomTreeMap info)
                        (postdom_edges (None # map Some (rev outp)) Tp (Suc (length outp)))\<rparr>"
    by blast
  let ?E1 = "dom_edges (rev out) T (length out)"
  let ?E2 = "postdom_edges (None # map Some (rev outp)) Tp (Suc (length outp))"
  let ?info' = "\<lparr>getDomTreeMap = add_edges (getDomTreeMap info) ?E1,
                 getPostDomTreeMap = add_edges (getPostDomTreeMap info) ?E2\<rparr>"
  have f1: "Field ?E1 \<subseteq> Some ` entry_reachable func"
    using dom_edges_field [of out T] chk_done_range(2,3) [OF d(4)] dom_order_set [OF d(1,2,3)]
    by simp
  have f2: "Field ?E2 \<subseteq> Some ` exit_reaching func"
    using postdom_edges_field [of outp Tp] chk_done_range(2,3) [OF p(3)]
      postdom_order_set [OF assms p(1,2)] by simp
  have "analyze iter func info = Some ?info'" using a by simp
  moreover have "\<forall>b. b \<notin> entry_reachable func \<and> Some b \<notin> map_nodes (getDomTreeMap info) \<longrightarrow>
                Some b \<notin> map_nodes (getDomTreeMap ?info')"
    using f1 by (auto simp: map_nodes_add_edges)
  moreover have "\<forall>b. b \<notin> exit_reaching func \<and> Some b \<notin> map_nodes (getPostDomTreeMap info) \<longrightarrow>
                Some b \<notin> map_nodes (getPostDomTreeMap ?info')"
    using f2 by (auto simp: map_nodes_add_edges)
  ultimately show ?thesis by blast
qed

lemma loopy_orders:
  "map_option fst (computeIDoms loopy) = Some [0, 2, 1]"
  "map_option fst (computeIPdoms remdups loopy) = Some [None, Some 2, Some 3, Some 0]"
  by code_simp+

theorem unreachable_blocks_absent_witness:
  "wf_cfg loopy \<and> set_iteration remdups \<and>
   3 \<notin> entry_reachable loopy \<and> Some 3 \<notin> map_nodes (getDomTreeMap emptyInfo) \<and>
   1 \<notin> exit_reaching loopy \<and> Some 1 \<notin> map_nodes (getPostDomTreeMap emptyInfo) \<and>
   (\<exists>info'. analyze remdups loopy emptyInfo = Some info' \<and>
            Some 3 \<notin> map_nodes (getDomTreeMap info') \<and>
            Some 1 \<notin> map_nodes (getPostDomTreeMap info'))"
proof -
  from loopy_orders(1) obtain T where "computeIDoms loopy = Some ([0, 2, 1], T)" by auto
  from entry_reachable_computed [OF wf_cfg_loopy this] have r1: "3 \<notin> entry_reachable loopy" by simp
  from loopy_orders(2) obtain Tp where
    "computeIPdoms remdups loopy = Some ([None, Some 2, Some 3, Some 0], Tp)" by auto
  from exit_reaching_computed [OF wf_cfg_loopy set_iteration_remdups this]
  have "Some 1 \<notin> Some ` exit_reaching loopy" by simp
  then have r2: "1 \<notin> exit_reaching loopy" by blast
  have e: "Some 3 \<notin> map_nodes (getDomTreeMap emptyInfo)" "Some 1 \<notin> map_nodes (getPostDomTreeMap emptyInfo)"
    by (simp_all add: emptyInfo_def map_nodes_empty)
  from unreachable_blocks_absent [OF wf_cfg_loopy set_iteration_remdups, of emptyInfo] r1 r2 e
  have "\<exists>info'. analyze remdups loopy emptyInfo = Some info' \<and>
            Some 3 \<notin> map_nodes (getDomTreeMap info') \<and>
            Some 1 \<notin> map_nodes (getPostDomTreeMap info')" by blast
  with wf_cfg_loopy set_iteration_remdups r1 r2 e show ?thesis by blast
qed

text \<open>
  Claim C10. On a well-formed function \<open>analyze\<close> returns, and every key and every
  member of a child set that it adds to the post-dominator map is a block of the
  function; the null pointer, which stands for the virtual exit, is neither a key nor in
  a child set afterwards unless it was before.
\<close>

theorem virtual_exit_never_published:
  assumes "wf_cfg func" and "set_iteration iter"
  shows "\<exists>info'. analyze iter func info = Some info' \<and>
           map_nodes (getPostDomTreeMap info') \<subseteq>
             map_nodes (getPostDomTreeMap info) \<union> Some ` set (getBasicBlockList func) \<and>
           (None \<notin> map_nodes (getPostDomTreeMap info) \<longrightarrow>
              None \<notin> map_nodes (getPostDomTreeMap info'))"
proof -
  from analyze_result [OF assms] obtain out T outp Tp where
    p: "dfs_post (getPredecessors func) (set (getBasicBlockList func)) {} (exitBBs iter func) outp"
    "chk_done (postdom_graph func (None # map Some (rev outp))) (Suc (length outp)) Tp"
    and a: "\<forall>info. analyze iter func info =
              Some \<lparr>getDomTreeMap =
                      add_edges (getDomTreeMap info) (dom_edges (rev out) T (length out)),
                    getPostDomTreeMap =
                      add_edges (getPostDomTreeMap info)
                        (postdom_edges (None # map Some (rev outp)) Tp (Suc (length outp)))\<rparr>"
    by blast
  let ?E1 = "dom_edges (rev out) T (length out)"
  let ?E2 = "postdom_edges (None # map Some (rev outp)) Tp (Suc (length outp))"
  let ?info' = "\<lparr>getDomTreeMap = add_edges (getDomTreeMap info) ?E1,
                 getPostDomTreeMap = add_edges (getPostDomTreeMap info) ?E2\<rparr>"
  from p(1) have "set outp \<subseteq> set (getBasicBlockList func)" unfolding dfs_post_def by simp
  moreover have "Field ?E2 \<subseteq> Some ` set outp"
    using postdom_edges_field [of outp Tp] chk_done_range(2,3) [OF p(2)] by simp
  ultimately have f: "Field ?E2 \<subseteq> Some ` set (getBasicBlockList func)" by blast
  have "analyze iter func info = Some ?info'" using a by simp
  moreover have "map_nodes (getPostDomTreeMap ?info') \<subseteq>
             map_nodes (getPostDomTreeMap info) \<union> Some ` set (getBasicBlockList func)"
    using f by (auto simp: map_nodes_add_edges)
  moreover have "None \<notin> map_nodes (getPostDomTreeMap info) \<longrightarrow>
              None \<notin> map_nodes (getPostDomTreeMap ?info')"
    using f by (auto simp: map_nodes_add_edges)
  ultimately show ?thesis by blast
qed

theorem virtual_exit_never_published_witness:
  "wf_cfg twoExits \<and> set_iteration remdups \<and>
   None \<notin> map_nodes (getPostDomTreeMap emptyInfo) \<and>
   (\<exists>info'. analyze remdups twoExits emptyInfo = Some info' \<and>
            None \<notin> map_nodes (getPostDomTreeMap info') \<and>
            map_nodes (getPostDomTreeMap info') \<subseteq> Some ` set (getBasicBlockList twoExits))"
proof -
  have e: "map_nodes (getPostDomTreeMap emptyInfo) = {}"
    by (simp add: emptyInfo_def map_nodes_empty)
  from virtual_exit_never_published [OF wf_cfg_twoExits set_iteration_remdups, of emptyInfo] e
  have "\<exists>info'. analyze remdups twoExits emptyInfo = Some info' \<and>
            None \<notin> map_nodes (getPostDomTreeMap info') \<and>
            map_nodes (getPostDomTreeMap info') \<subseteq> Some ` set (getBasicBlockList twoExits)"
    by auto
  with wf_cfg_twoExits set_iteration_remdups e show ?thesis by simp
qed


lemma exit_slot_zero:
  assumes d: "distinct out"
    and dn: "chk_done (postdom_graph func (None # map Some (rev out))) (Suc (length out)) T"
    and e: "e \<in> set out" "getSuccessors func e = []"
  shows "\<exists>i<Suc (length out). (None # map Some (rev out)) ! i = Some e \<and> T ! i = 0"
proof -
  let ?rpo = "None # map Some (rev out)"
  let ?idx = "build_bbToIdx ?rpo"
  from e(1) have "e \<in> set (rev out)" by simp
  then have "\<exists>j<length (rev out). rev out ! j = e" by (simp only: in_set_conv_nth)
  then obtain j where j: "j < length out" "rev out ! j = e" by auto
  let ?i = "Suc j"
  have ri: "?rpo ! ?i = Some e" using j by simp
  have il: "?i < Suc (length out)" using j by simp
  have dr: "distinct ?rpo" using d by (auto simp: distinct_map)
  have "idx_of ?idx (?rpo ! 0) = 0" by (rule idx_of_nth [OF dr]) simp
  then have z: "idx_of ?idx None = 0" by simp
  have g: "postdom_graph func ?rpo ?i = [0]"
    unfolding postdom_graph_def idx_nbrs_def using ri e(2) z
    by (simp add: successorsOrExit_def)
  from dn il have "fix_at (postdom_graph func ?rpo) T ?i" by (simp add: chk_done_def)
  then have f: "foldM (absorb T) [0] (-1) = Some (T ! ?i)" using g by (simp add: fix_at_def)
  have "T ! 0 = 0" using chk_done_range(5) [OF dn, of 0] by simp
  then have "absorb T 0 (-1) = Some 0" by (simp add: absorb_def)
  with f have "T ! ?i = 0" by simp
  with ri il show ?thesis by blast
qed

lemma forked_exits: "2 \<in> exit_blocks forked" "3 \<in> exit_blocks forked"
  by (simp_all add: exit_blocks_def forked_def)

lemma forked_analysis:
  "computeIPdoms remdups forked = Some ([None, Some 3, Some 2, Some 1, Some 0], [0, 0, 0, 0, 3])"
  "map_option (\<lambda>i. (getPostDomTreeMap i (Some 0), getPostDomTreeMap i (Some 1),
                     getPostDomTreeMap i (Some 2), getPostDomTreeMap i (Some 3),
                     getPostDomTreeMap i None))
     (analyze remdups forked emptyInfo) = Some (None, Some {Some 0}, None, None, None)"
  by code_simp+

text \<open>
  Claim C3. For two distinct exit blocks \<open>E1\<close> and \<open>E2\<close> of a well-formed function, the
  post-dominator computation returns an order of distinct blocks that starts with the
  virtual exit (the null pointer) and holds besides it exactly the blocks that reach an
  exit, and the slots of \<open>E1\<close> and of \<open>E2\<close> both hold 0, the index of the virtual exit:
  the virtual exit is the immediate post-dominator of both. The post-dominator map that
  \<open>analyze\<close> publishes from empty maps holds exactly the edges from the block of a slot
  to the block of its index, for the indices whose slot is not 0; so neither \<open>E1\<close> nor
  \<open>E2\<close> is a child of any block in the published map, and the virtual exit has no
  parent.
\<close>

theorem exits_have_virtual_exit:
  assumes "wf_cfg func" and "set_iteration iter"
    and "E1 \<in> exit_blocks func" and "E2 \<in> exit_blocks func" and "E1 \<noteq> E2"
  shows "\<exists>revPostOrder IPdoms info'.
           computeIPdoms iter func = Some (revPostOrder, IPdoms) \<and>
           analyze iter func emptyInfo = Some info' \<and>
           distinct revPostOrder \<and> revPostOrder ! 0 = None \<and>
           set revPostOrder = insert None (Some ` exit_reaching func) \<and>
           (\<exists>i<length revPostOrder. revPostOrder ! i = Some E1 \<and> IPdoms ! i = 0) \<and>
           (\<exists>i<length revPostOrder. revPostOrder ! i = Some E2 \<and> IPdoms ! i = 0) \<and>
           edges (getPostDomTreeMap info') =
             {(revPostOrder ! nat (IPdoms ! i), revPostOrder ! i) |i.
                0 < i \<and> i < length revPostOrder \<and> IPdoms ! i \<noteq> 0} \<and>
           Some E1 \<notin> \<Union>(ran (getPostDomTreeMap info')) \<and>
           Some E2 \<notin> \<Union>(ran (getPostDomTreeMap info')) \<and>
           None \<notin> \<Union>(ran (getPostDomTreeMap info'))"
proof -
  from analyze_result [OF assms(1,2)] obtain out T outp Tp where
    c: "computeIPdoms iter func = Some (None # map Some (rev outp), Tp)"
    and p: "dfs_post (getPredecessors func) (set (getBasicBlockList func)) {} (exitBBs iter func) outp"
    "set (exitBBs iter func) \<subseteq> set outp"
    "chk_done (postdom_graph func (None # map Some (rev outp))) (Suc (length outp)) Tp"
    and a: "\<forall>info. analyze iter func info =
              Some \<lparr>getDomTreeMap =
                      add_edges (getDomTreeMap info) (dom_edges (rev out) T (length out)),
                    getPostDomTreeMap =
                      add_edges (getPostDomTreeMap info)
                        (postdom_edges (None # map Some (rev outp)) Tp (Suc (length outp)))\<rparr>"
    by blast
  let ?rpo = "None # map Some (rev outp)"
  let ?P = "postdom_edges ?rpo Tp (Suc (length outp))"
  let ?X = "{(?rpo ! nat (Tp ! i), ?rpo ! i) |i. 0 < i \<and> i < length ?rpo \<and> Tp ! i \<noteq> 0}"
  let ?info' = "\<lparr>getDomTreeMap =
                   add_edges (getDomTreeMap emptyInfo) (dom_edges (rev out) T (length out)),
                 getPostDomTreeMap = add_edges (getPostDomTreeMap emptyInfo) ?P\<rparr>"
  have len: "length ?rpo = Suc (length outp)" by simp
  from p(1) have d: "distinct outp" unfolding dfs_post_def by simp
  then have dr: "distinct ?rpo" by (auto simp: distinct_map)
  have st: "set ?rpo = insert None (Some ` exit_reaching func)"
    using postdom_order_set [OF assms(1,2) p(1,2)] by simp
  have ex: "\<And>e. e \<in> exit_blocks func \<Longrightarrow> e \<in> set outp \<and> getSuccessors func e = []"
    using p(2) exitBBs_set(1) [OF assms(2), of func] by (auto simp: exit_blocks_def)
  have s1: "\<exists>i<length ?rpo. ?rpo ! i = Some E1 \<and> Tp ! i = 0"
    using exit_slot_zero [OF d p(3), of E1] ex [OF assms(3)] by simp
  have s2: "\<exists>i<length ?rpo. ?rpo ! i = Some E2 \<and> Tp ! i = 0"
    using exit_slot_zero [OF d p(3), of E2] ex [OF assms(4)] by simp
  from p(3) have dn: "chk_done (postdom_graph func ?rpo) (length ?rpo) Tp" by simp
  have PX: "?P = ?X" using postdom_edges_explicit [OF dn] by simp
  have pm: "getPostDomTreeMap ?info' = add_edges Map.empty ?P" by (simp add: emptyInfo_def)
  have ed: "edges (getPostDomTreeMap ?info') = ?X"
    unfolding pm edges_add_edges edges_empty using PX by simp
  have rn: "\<Union>(ran (getPostDomTreeMap ?info')) = Range ?X"
    unfolding pm ran_add_edges using PX by simp
  have z: "\<And>i. i < length ?rpo \<Longrightarrow> Tp ! i = 0 \<Longrightarrow> ?rpo ! i \<notin> \<Union>(ran (getPostDomTreeMap ?info'))"
    unfolding rn by (rule zero_slot_not_child [OF dr])
  from s1 z have n1: "Some E1 \<notin> \<Union>(ran (getPostDomTreeMap ?info'))" by metis
  from s2 z have n2: "Some E2 \<notin> \<Union>(ran (getPostDomTreeMap ?info'))" by metis
  have "Tp ! 0 = 0" using chk_done_range(5) [OF p(3), of 0] by simp
  with z [of 0] have n0: "None \<notin> \<Union>(ran (getPostDomTreeMap ?info'))" by simp
  have an: "analyze iter func emptyInfo = Some ?info'" using a by simp
  have r0: "?rpo ! 0 = None" by simp
  let ?R = "\<lambda>(revPostOrder :: BBptr list) IPdoms info'.
           computeIPdoms iter func = Some (revPostOrder, IPdoms) \<and>
           analyze iter func emptyInfo = Some info' \<and>
           distinct revPostOrder \<and> revPostOrder ! 0 = None \<and>
           set revPostOrder = insert None (Some ` exit_reaching func) \<and>
           (\<exists>i<length revPostOrder. revPostOrder ! i = Some E1 \<and> IPdoms ! i = 0) \<and>
           (\<exists>i<length revPostOrder. revPostOrder ! i = Some E2 \<and> IPdoms ! i = 0) \<and>
           edges (getPostDomTreeMap info') =
             {(revPostOrder ! nat (IPdoms ! i), revPostOrder ! i) |i.
                0 < i \<and> i < length revPostOrder \<and> IPdoms ! i \<noteq> 0} \<and>
           Some E1 \<notin> \<Union>(ran (getPostDomTreeMap info')) \<and>
           Some E2 \<notin> \<Union>(ran (getPostDomTreeMap info')) \<and>
           None \<notin> \<Union>(ran (getPostDomTreeMap info'))"
  have "?R ?rpo Tp ?info'"
    apply (intro conjI)
    apply (rule c)
    apply (rule an)
    apply (rule dr)
    apply (rule r0)
    apply (rule st)
    apply (rule s1)
    apply (rule s2)
    apply (rule ed)
    apply (rule n1)
    apply (rule n2)
    apply (rule n0)
    done
  then show ?thesis by (intro exI)
qed

theorem exits_have_virtual_exit_witness:
  "wf_cfg forked \<and> set_iteration remdups \<and>
   2 \<in> exit_blocks forked \<and> 3 \<in> exit_blocks forked \<and> (2::nat) \<noteq> 3 \<and>
   computeIPdoms remdups forked =
     Some ([None, Some 3, Some 2, Some 1, Some 0], [0, 0, 0, 0, 3]) \<and>
   map_option (\<lambda>i. (getPostDomTreeMap i (Some 0), getPostDomTreeMap i (Some 1),
                     getPostDomTreeMap i (Some 2), getPostDomTreeMap i (Some 3),
                     getPostDomTreeMap i None))
     (analyze remdups forked emptyInfo) = Some (None, Some {Some 0}, None, None, None) \<and>
   (\<exists>revPostOrder IPdoms info'.
           computeIPdoms remdups forked = Some (revPostOrder, IPdoms) \<and>
           analyze remdups forked emptyInfo = Some info' \<and>
           distinct revPostOrder \<and> revPostOrder ! 0 = None \<and>
           set revPostOrder = insert None (Some ` exit_reaching forked) \<and>
           (\<exists>i<length revPostOrder. revPostOrder ! i = Some 2 \<and> IPdoms ! i = 0) \<and>
           (\<exists>i<length revPostOrder. revPostOrder ! i = Some 3 \<and> IPdoms ! i = 0) \<and>
           edges (getPostDomTreeMap info') =
             {(revPostOrder ! nat (IPdoms ! i), revPostOrder ! i) |i.
                0 < i \<and> i < length revPostOrder \<and> IPdoms ! i \<noteq> 0} \<and>
           Some 2 \<notin> \<Union>(ran (getPostDomTreeMap info')) \<and>
           Some 3 \<notin> \<Union>(ran (getPostDomTreeMap info')) \<and>
           None \<notin> \<Union>(ran (getPostDomTreeMap info')))"
proof -
  have ne: "(2::nat) \<noteq> 3" by simp
  from exits_have_virtual_exit [OF wf_cfg_forked set_iteration_remdups forked_exits ne]
    wf_cfg_forked set_iteration_remdups forked_exits ne forked_analysis
  show ?thesis by blast
qed

section \<open>Running the analysis again\<close>

lemma diamond_stale:
  "map_option (\<lambda>i. getDomTreeMap i (Some 1)) (analyze remdups diamond staleInfo) =
     Some (Some {Some 3})"
  "map_option (\<lambda>i. getDomTreeMap i (Some 1)) (analyze remdups diamond emptyInfo) = Some None"
  "computeIDoms diamond = Some ([0, 2, 1, 3, 4], [0, 0, 0, 0, 3])"
  by code_simp+

text \<open>
  The maps are obtained by reference and only inserted into; no run clears them. On the
  diamond, started from maps in which the block 1 already has the child 3, the run keeps
  that child, although 1 does not dominate 3 there; started from empty maps the block 1
  is no key at all. So a run does not overwrite what the maps held, and its result
  depends on the prior contents.
\<close>

theorem analyze_keeps_prior_entries:
  "analyze remdups diamond staleInfo \<noteq> analyze remdups diamond emptyInfo \<and>
   map_option (\<lambda>i. getDomTreeMap i (Some 1)) (analyze remdups diamond staleInfo) =
     Some (Some {Some 3}) \<and>
   map_option (\<lambda>i. getDomTreeMap i (Some 1)) (analyze remdups diamond emptyInfo) = Some None"
proof -
  have "analyze remdups diamond staleInfo \<noteq> analyze remdups diamond emptyInfo"
  proof
    assume "analyze remdups diamond staleInfo = analyze remdups diamond emptyInfo"
    then have "map_option (\<lambda>i. getDomTreeMap i (Some 1)) (analyze remdups diamond staleInfo) =
               map_option (\<lambda>i. getDomTreeMap i (Some 1)) (analyze remdups diamond emptyInfo)"
      by simp
    then show False unfolding diamond_stale by simp
  qed
  with diamond_stale(1,2) show ?thesis by simp
qed

text \<open>
  Claim C7, amended. On a well-formed function \<open>analyze\<close> returns whatever the two maps
  held before, and a second run on the result returns the same result. It does not
  overwrite: the maps after a run are the maps before it with the edges of this run
  added, one edge for every index but 0 of the order of the blocks reachable from the
  entry, from the block of its slot to its block, and likewise for the blocks that reach
  an exit, for the indices whose slot is not 0 (the virtual exit). Every earlier entry is
  still there.
\<close>

theorem analyze_adds_to_prior_maps:
  assumes "wf_cfg func" and "set_iteration iter"
  shows "\<exists>revPostOrder IDoms revPostOrderP IPdoms info'.
           computeIDoms func = Some (revPostOrder, IDoms) \<and>
           computeIPdoms iter func = Some (revPostOrderP, IPdoms) \<and>
           analyze iter func info = Some info' \<and>
           analyze iter func info' = Some info' \<and>
           getDomTreeMap info' =
             add_edges (getDomTreeMap info)
               {(Some (revPostOrder ! nat (IDoms ! i)), Some (revPostOrder ! i)) |i.
                  0 < i \<and> i < length revPostOrder} \<and>
           getPostDomTreeMap info' =
             add_edges (getPostDomTreeMap info)
               {(revPostOrderP ! nat (IPdoms ! i), revPostOrderP ! i) |i.
                  0 < i \<and> i < length revPostOrderP \<and> IPdoms ! i \<noteq> 0} \<and>
           edges (getDomTreeMap info') =
             edges (getDomTreeMap info) \<union>
               {(Some (revPostOrder ! nat (IDoms ! i)), Some (revPostOrder ! i)) |i.
                  0 < i \<and> i < length revPostOrder} \<and>
           edges (getPostDomTreeMap info') =
             edges (getPostDomTreeMap info) \<union>
               {(revPostOrderP ! nat (IPdoms ! i), revPostOrderP ! i) |i.
                  0 < i \<and> i < length revPostOrderP \<and> IPdoms ! i \<noteq> 0} \<and>
           distinct revPostOrder \<and> set revPostOrder = entry_reachable func \<and>
           distinct revPostOrderP \<and>
           set revPostOrderP = insert None (Some ` exit_reaching func)"
proof -
  from analyze_result [OF assms] obtain out T outp Tp where
    ci: "computeIDoms func = Some (rev out, T)"
    and dp: "dfs_post (getSuccessors func) (set (getBasicBlockList func)) {} [getEntryBlock func] out"
    and o: "out \<noteq> []" "last out = getEntryBlock func"
    and dnd: "chk_done (dom_graph func (rev out)) (length out) T"
    and cp: "computeIPdoms iter func = Some (None # map Some (rev outp), Tp)"
    and pp: "dfs_post (getPredecessors func) (set (getBasicBlockList func)) {} (exitBBs iter func) outp"
    "set (exitBBs iter func) \<subseteq> set outp"
    and dnp: "chk_done (postdom_graph func (None # map Some (rev outp))) (Suc (length outp)) Tp"
    and a: "\<forall>info. analyze iter func info =
              Some \<lparr>getDomTreeMap =
                      add_edges (getDomTreeMap info) (dom_edges (rev out) T (length out)),
                    getPostDomTreeMap =
                      add_edges (getPostDomTreeMap info)
                        (postdom_edges (None # map Some (rev outp)) Tp (Suc (length outp)))\<rparr>"
    by blast
  let ?rpo = "rev out"
  let ?rpoP = "None # map Some (rev outp)"
  let ?D = "{(Some (?rpo ! nat (T ! i)), Some (?rpo ! i)) |i. 0 < i \<and> i < length ?rpo}"
  let ?P = "{(?rpoP ! nat (Tp ! i), ?rpoP ! i) |i. 0 < i \<and> i < length ?rpoP \<and> Tp ! i \<noteq> 0}"
  let ?info' = "\<lparr>getDomTreeMap = add_edges (getDomTreeMap info) ?D,
                 getPostDomTreeMap = add_edges (getPostDomTreeMap info) ?P\<rparr>"
  from dnd have "chk_done (dom_graph func ?rpo) (length ?rpo) T" by simp
  from dom_edges_explicit [OF this] have D: "dom_edges (rev out) T (length out) = ?D" by simp
  from dnp have "chk_done (postdom_graph func ?rpoP) (length ?rpoP) Tp" by simp
  from postdom_edges_explicit [OF this]
  have P: "postdom_edges ?rpoP Tp (Suc (length outp)) = ?P" by simp
  have a': "\<And>info. analyze iter func info =
              Some \<lparr>getDomTreeMap = add_edges (getDomTreeMap info) ?D,
                    getPostDomTreeMap = add_edges (getPostDomTreeMap info) ?P\<rparr>"
    using a unfolding D P by simp
  have a1: "analyze iter func info = Some ?info'" by (rule a')
  have a2: "analyze iter func ?info' = Some ?info'"
    unfolding a' [of ?info'] by (simp add: add_edges_idem)
  have m1: "getDomTreeMap ?info' = add_edges (getDomTreeMap info) ?D" by simp
  have m2: "getPostDomTreeMap ?info' = add_edges (getPostDomTreeMap info) ?P" by simp
  have e1: "edges (getDomTreeMap ?info') = edges (getDomTreeMap info) \<union> ?D"
    unfolding m1 by (rule edges_add_edges)
  have e2: "edges (getPostDomTreeMap ?info') = edges (getPostDomTreeMap info) \<union> ?P"
    unfolding m2 by (rule edges_add_edges)
  from dp have d1: "distinct ?rpo" unfolding dfs_post_def by simp
  from pp(1) have "distinct outp" unfolding dfs_post_def by simp
  then have d2: "distinct ?rpoP" by (auto simp: distinct_map)
  have s1: "set ?rpo = entry_reachable func" using dom_order_set [OF dp o] by simp
  have s2: "set ?rpoP = insert None (Some ` exit_reaching func)"
    using postdom_order_set [OF assms pp] by simp
  let ?R = "\<lambda>(revPostOrder :: BB list) IDoms (revPostOrderP :: BBptr list) IPdoms info'.
           computeIDoms func = Some (revPostOrder, IDoms) \<and>
           computeIPdoms iter func = Some (revPostOrderP, IPdoms) \<and>
           analyze iter func info = Some info' \<and>
           analyze iter func info' = Some info' \<and>
           getDomTreeMap info' =
             add_edges (getDomTreeMap info)
               {(Some (revPostOrder ! nat (IDoms ! i)), Some (revPostOrder ! i)) |i.
                  0 < i \<and> i < length revPostOrder} \<and>
           getPostDomTreeMap info' =
             add_edges (getPostDomTreeMap info)
               {(revPostOrderP ! nat (IPdoms ! i), revPostOrderP ! i) |i.
                  0 < i \<and> i < length revPostOrderP \<and> IPdoms ! i \<noteq> 0} \<and>
           edges (getDomTreeMap info') =
             edges (getDomTreeMap info) \<union>
               {(Some (revPostOrder ! nat (IDoms ! i)), Some (revPostOrder ! i)) |i.
                  0 < i \<and> i < length revPostOrder} \<and>
           edges (getPostDomTreeMap info') =
             edges (getPostDomTreeMap info) \<union>
               {(revPostOrderP ! nat (IPdoms ! i), revPostOrderP ! i) |i.
                  0 < i \<and> i < length revPostOrderP \<and> IPdoms ! i \<noteq> 0} \<and>
           distinct revPostOrder \<and> set revPostOrder = entry_reachable func \<and>
           distinct revPostOrderP \<and>
           set revPostOrderP = insert None (Some ` exit_reaching func)"
  have "?R ?rpo T ?rpoP Tp ?info'"
    apply (intro conjI)
    apply (rule ci)
    apply (rule cp)
    apply (rule a1)
    apply (rule a2)
    apply (rule m1)
    apply (rule m2)
    apply (rule e1)
    apply (rule e2)
    apply (rule d1)
    apply (rule s1)
    apply (rule d2)
    apply (rule s2)
    done
  then show ?thesis by (intro exI)
qed

theorem analyze_adds_to_prior_maps_witness:
  "wf_cfg diamond \<and> set_iteration remdups \<and>
   computeIDoms diamond = Some ([0, 2, 1, 3, 4], [0, 0, 0, 0, 3]) \<and>
   map_option (\<lambda>i. getDomTreeMap i (Some 1)) (analyze remdups diamond staleInfo) =
     Some (Some {Some 3}) \<and>
   (\<exists>revPostOrder IDoms revPostOrderP IPdoms info'.
           computeIDoms diamond = Some (revPostOrder, IDoms) \<and>
           computeIPdoms remdups diamond = Some (revPostOrderP, IPdoms) \<and>
           analyze remdups diamond staleInfo = Some info' \<and>
           analyze remdups diamond info' = Some info' \<and>
           getDomTreeMap info' =
             add_edges (getDomTreeMap staleInfo)
               {(Some (revPostOrder ! nat (IDoms ! i)), Some (revPostOrder ! i)) |i.
                  0 < i \<and> i < length revPostOrder} \<and>
           getPostDomTreeMap info' =
             add_edges (getPostDomTreeMap staleInfo)
               {(revPostOrderP ! nat (IPdoms ! i), revPostOrderP ! i) |i.
                  0 < i \<and> i < length revPostOrderP \<and> IPdoms ! i \<noteq> 0} \<and>
           edges (getDomTreeMap info') =
             edges (getDomTreeMap staleInfo) \<union>
               {(Some (revPostOrder ! nat (IDoms ! i)), Some (revPostOrder ! i)) |i.
                  0 < i \<and> i < length revPostOrder} \<and>
           edges (getPostDomTreeMap info') =
             edges (getPostDomTreeMap staleInfo) \<union>
               {(revPostOrderP ! nat (IPdoms ! i), revPostOrderP ! i) |i.
                  0 < i \<and> i < length revPostOrderP \<and> IPdoms ! i \<noteq> 0} \<and>
           distinct revPostOrder \<and> set revPostOrder = entry_reachable diamond \<and>
           distinct revPostOrderP \<and>
           set revPostOrderP = insert None (Some ` exit_reaching diamond))"
  using analyze_adds_to_prior_maps [OF wf_cfg_diamond set_iteration_remdups, of staleInfo]
    wf_cfg_diamond set_iteration_remdups diamond_stale(1,3) by blast

section \<open>The maps as trees\<close>

lemma dom_map_tree:
  assumes dp: "dfs_post (getSuccessors func) V {} [getEntryBlock func] out"
    and o: "out \<noteq> []" "last out = getEntryBlock func"
    and dn: "chk_done g (length out) T"
  shows "tree_over (dom_edges (rev out) T (length out)) (Some (getEntryBlock func))
           (Some ` entry_reachable func)"
proof -
  let ?ps = "map Some (rev out)"
  from dp have "distinct out" unfolding dfs_post_def by simp
  then have d: "distinct ?ps" by (simp add: distinct_map)
  have n: "0 < length ?ps" using o(1) by simp
  have par: "\<forall>i. 0 < i \<and> i < length ?ps \<longrightarrow> 0 \<le> T ! i \<and> T ! i < int i"
    using chk_done_parent [OF dn] by simp
  from dn have "chk_done g (length (rev out)) T" by simp
  from dom_edges_parent [OF this]
  have e: "dom_edges (rev out) T (length out) = parent_edges ?ps T" by simp
  have r: "?ps ! 0 = Some (getEntryBlock func)"
    using o hd_rev_nth [OF o(1)] by (simp add: nth_map)
  have s: "set ?ps = Some ` entry_reachable func" using dom_order_set [OF dp o] by simp
  from parent_edges_tree [OF d n par] show ?thesis unfolding e r s .
qed

lemma postdom_map_tree:
  assumes wf: "wf_cfg func" and it: "set_iteration iter"
    and pp: "dfs_post (getPredecessors func) V {} (exitBBs iter func) outp"
    "set (exitBBs iter func) \<subseteq> set outp"
    and dn: "chk_done g (Suc (length outp)) Tp"
  shows "tree_over
           (postdom_edges (None # map Some (rev outp)) Tp (Suc (length outp)) \<union>
            {(None, (None # map Some (rev outp)) ! i) |i.
               0 < i \<and> i < length (None # map Some (rev outp)) \<and> Tp ! i = 0})
           None (insert None (Some ` exit_reaching func))"
proof -
  let ?ps = "None # map Some (rev outp)"
  from pp(1) have "distinct outp" unfolding dfs_post_def by simp
  then have d: "distinct ?ps" by (auto simp: distinct_map)
  have n: "0 < length ?ps" by simp
  have par: "\<forall>i. 0 < i \<and> i < length ?ps \<longrightarrow> 0 \<le> Tp ! i \<and> Tp ! i < int i"
    using chk_done_parent [OF dn] by simp
  from dn have "chk_done g (length ?ps) Tp" by simp
  from postdom_edges_parent [OF this]
  have e: "postdom_edges ?ps Tp (Suc (length outp)) \<union>
           {(None, ?ps ! i) |i. 0 < i \<and> i < length ?ps \<and> Tp ! i = 0} = parent_edges ?ps Tp"
    by simp
  have r: "?ps ! 0 = None" by simp
  have s: "set ?ps = insert None (Some ` exit_reaching func)"
    using postdom_order_set [OF wf it pp] by simp
  from parent_edges_tree [OF d n par] show ?thesis unfolding e r s .
qed

lemma twoExits_analysis:
  "computeIPdoms remdups twoExits = Some ([None, Some 2, Some 1, Some 0], [0, 0, 0, 0])"
  by code_simp

lemma twoExits_postdom_edges:
  "\<exists>info'. analyze remdups twoExits emptyInfo = Some info' \<and>
     edges (getPostDomTreeMap info') = {}"
proof -
  from analyze_result [OF wf_cfg_twoExits set_iteration_remdups] obtain out T outp Tp where
    cp: "computeIPdoms remdups twoExits = Some (None # map Some (rev outp), Tp)"
    and dnp: "chk_done (postdom_graph twoExits (None # map Some (rev outp))) (Suc (length outp)) Tp"
    and a: "\<forall>info. analyze remdups twoExits info =
              Some \<lparr>getDomTreeMap =
                      add_edges (getDomTreeMap info) (dom_edges (rev out) T (length out)),
                    getPostDomTreeMap =
                      add_edges (getPostDomTreeMap info)
                        (postdom_edges (None # map Some (rev outp)) Tp (Suc (length outp)))\<rparr>"
    by blast
  let ?rpoP = "None # map Some (rev outp)"
  let ?P = "postdom_edges ?rpoP Tp (Suc (length outp))"
  from cp have r: "?rpoP = [None, Some 2, Some 1, Some 0]" and t: "Tp = [0, 0, 0, 0]"
    unfolding twoExits_analysis by simp_all
  from r have "length ?rpoP = 4" by simp
  then have l: "length outp = 3" by simp
  have z: "\<And>i. i < 4 \<Longrightarrow> Tp ! i = 0"
  proof -
    fix i :: nat assume "i < 4"
    then have "i = 0 \<or> i = 1 \<or> i = 2 \<or> i = 3" by arith
    then show "Tp ! i = 0" unfolding t by auto
  qed
  have "?P = {}" unfolding postdom_edges_def l using z by auto
  then have "edges (getPostDomTreeMap
      \<lparr>getDomTreeMap = add_edges (getDomTreeMap emptyInfo) (dom_edges (rev out) T (length out)),
       getPostDomTreeMap = add_edges (getPostDomTreeMap emptyInfo) ?P\<rparr>) = {}"
    by (simp add: emptyInfo_def edges_add_edges edges_empty)
  moreover have "analyze remdups twoExits emptyInfo =
      Some \<lparr>getDomTreeMap = add_edges (getDomTreeMap emptyInfo) (dom_edges (rev out) T (length out)),
       getPostDomTreeMap = add_edges (getPostDomTreeMap emptyInfo) ?P\<rparr>" using a by simp
  ultimately show ?thesis by blast
qed

lemma twoExits_exit_reaching: "Some ` exit_reaching twoExits = {Some 0, Some 1, Some 2}"
  unfolding exit_reaching_computed [OF wf_cfg_twoExits set_iteration_remdups twoExits_analysis]
  by auto

text \<open>
  The last loop of the post-dominator pass skips every slot that holds 0, the index of
  the virtual exit: the edges from the virtual exit are not stored. For the function with
  the two exit blocks 1 and 2 below the entry block 0 the stored post-dominator map is
  empty, while three blocks reach an exit: the stored edges are a tree neither over these
  blocks with the virtual exit as a further node, nor over these blocks alone, whatever
  the root.
\<close>

theorem postdom_map_lacks_exit_edges:
  "\<exists>info'. analyze remdups twoExits emptyInfo = Some info' \<and>
     edges (getPostDomTreeMap info') = {} \<and>
     Some ` exit_reaching twoExits = {Some 0, Some 1, Some 2} \<and>
     \<not> tree_over (edges (getPostDomTreeMap info')) None
          (insert None (Some ` exit_reaching twoExits)) \<and>
     (\<forall>r. \<not> tree_over (edges (getPostDomTreeMap info')) r (Some ` exit_reaching twoExits))"
proof -
  from twoExits_postdom_edges obtain info' where
    a: "analyze remdups twoExits emptyInfo = Some info'"
    and e: "edges (getPostDomTreeMap info') = {}" by blast
  have c1: "card (insert None (Some ` exit_reaching twoExits)) = 4"
    unfolding twoExits_exit_reaching by simp
  have c2: "card (Some ` exit_reaching twoExits) = 3"
    unfolding twoExits_exit_reaching by simp
  have n1: "\<not> tree_over (edges (getPostDomTreeMap info')) None
          (insert None (Some ` exit_reaching twoExits))"
    unfolding e tree_over_def c1 by simp
  have n2: "\<forall>r. \<not> tree_over (edges (getPostDomTreeMap info')) r (Some ` exit_reaching twoExits)"
    unfolding e tree_over_def c2 by simp
  from a e twoExits_exit_reaching n1 n2 show ?thesis by blast
qed

text \<open>
  Claim C2, amended. After \<open>analyze\<close> on a well-formed function with empty maps, the
  dominator map is a tree over the blocks reachable from the entry block, with the entry
  block as root: one edge less than blocks, no cycle, one parent for every block but the
  root, none for the root. The post-dominator map stores no edge from the virtual exit:
  it becomes a tree over the virtual exit and the blocks that reach an exit, with the
  virtual exit as root, once the edges from the virtual exit to the blocks whose slot
  holds 0 are added; none of these edges is stored, and every exit block is the child in
  one of them.
\<close>

theorem maps_are_trees:
  assumes "wf_cfg func" and "set_iteration iter"
  shows "\<exists>revPostOrder IPdoms info'.
           computeIPdoms iter func = Some (revPostOrder, IPdoms) \<and>
           analyze iter func emptyInfo = Some info' \<and>
           finite (entry_reachable func) \<and> finite (exit_reaching func) \<and>
           tree_over (edges (getDomTreeMap info')) (Some (getEntryBlock func))
             (Some ` entry_reachable func) \<and>
           tree_over
             (edges (getPostDomTreeMap info') \<union>
              {(None, revPostOrder ! i) |i.
                 0 < i \<and> i < length revPostOrder \<and> IPdoms ! i = 0})
             None (insert None (Some ` exit_reaching func)) \<and>
           edges (getPostDomTreeMap info') \<inter>
              {(None, revPostOrder ! i) |i.
                 0 < i \<and> i < length revPostOrder \<and> IPdoms ! i = 0} = {} \<and>
           Some ` exit_blocks func \<subseteq>
              Range {(None :: BBptr, revPostOrder ! i) |i.
                 0 < i \<and> i < length revPostOrder \<and> IPdoms ! i = 0}"
proof -
  from analyze_result [OF assms] obtain out T outp Tp where
    dp: "dfs_post (getSuccessors func) (set (getBasicBlockList func)) {} [getEntryBlock func] out"
    and o: "out \<noteq> []" "last out = getEntryBlock func"
    and dnd: "chk_done (dom_graph func (rev out)) (length out) T"
    and cp: "computeIPdoms iter func = Some (None # map Some (rev outp), Tp)"
    and pp: "dfs_post (getPredecessors func) (set (getBasicBlockList func)) {} (exitBBs iter func) outp"
    "set (exitBBs iter func) \<subseteq> set outp"
    and dnp: "chk_done (postdom_graph func (None # map Some (rev outp))) (Suc (length outp)) Tp"
    and a: "\<forall>info. analyze iter func info =
              Some \<lparr>getDomTreeMap =
                      add_edges (getDomTreeMap info) (dom_edges (rev out) T (length out)),
                    getPostDomTreeMap =
                      add_edges (getPostDomTreeMap info)
                        (postdom_edges (None # map Some (rev outp)) Tp (Suc (length outp)))\<rparr>"
    by blast
  let ?rpoP = "None # map Some (rev outp)"
  let ?D = "dom_edges (rev out) T (length out)"
  let ?P = "postdom_edges ?rpoP Tp (Suc (length outp))"
  let ?V = "{(None, ?rpoP ! i) |i. 0 < i \<and> i < length ?rpoP \<and> Tp ! i = 0}"
  let ?info' = "\<lparr>getDomTreeMap = add_edges (getDomTreeMap emptyInfo) ?D,
                 getPostDomTreeMap = add_edges (getPostDomTreeMap emptyInfo) ?P\<rparr>"
  have an: "analyze iter func emptyInfo = Some ?info'" using a by simp
  have e1: "edges (getDomTreeMap ?info') = ?D"
    by (simp add: emptyInfo_def edges_add_edges edges_empty)
  have e2: "edges (getPostDomTreeMap ?info') = ?P"
    by (simp add: emptyInfo_def edges_add_edges edges_empty)
  have "entry_reachable func = set out" using dom_order_set [OF dp o] by simp
  then have f1: "finite (entry_reachable func)" by simp
  have "exit_reaching func = set outp" using postdom_order_set [OF assms pp] by simp
  then have f2: "finite (exit_reaching func)" by simp
  have t1: "tree_over (edges (getDomTreeMap ?info')) (Some (getEntryBlock func))
              (Some ` entry_reachable func)"
    unfolding e1 by (rule dom_map_tree [OF dp o dnd])
  have t2: "tree_over (edges (getPostDomTreeMap ?info') \<union> ?V) None
              (insert None (Some ` exit_reaching func))"
    unfolding e2 by (rule postdom_map_tree [OF assms pp dnp])
  have "Field ?P \<subseteq> Some ` set outp"
    using postdom_edges_field [of outp Tp] chk_done_range(2,3) [OF dnp] by simp
  then have "\<forall>c. (None, c) \<notin> ?P" by (auto simp: Field_def)
  then have "?P \<inter> ?V = {}" by blast
  then have dj: "edges (getPostDomTreeMap ?info') \<inter> ?V = {}" unfolding e2 .
  from pp(1) have d: "distinct outp" unfolding dfs_post_def by simp
  have ex: "Some ` exit_blocks func \<subseteq> Range ?V"
  proof
    fix x assume "x \<in> Some ` exit_blocks func"
    then obtain e where e: "x = Some e" "e \<in> exit_blocks func" by blast
    then have "e \<in> set outp" "getSuccessors func e = []"
      using pp(2) exitBBs_set(1) [OF assms(2), of func] by (auto simp: exit_blocks_def)
    from exit_slot_zero [OF d dnp this] obtain i where
      i: "i < Suc (length outp)" "?rpoP ! i = Some e" "Tp ! i = 0" by blast
    then have "0 < i" by (cases i) simp_all
    with i have "(None, x) = (None, ?rpoP ! i) \<and> 0 < i \<and> i < length ?rpoP \<and> Tp ! i = 0"
      using e(1) by simp
    then have "(None, x) \<in> ?V" by blast
    then show "x \<in> Range ?V" by (rule RangeI)
  qed
  let ?R = "\<lambda>(revPostOrder :: BBptr list) IPdoms info'.
           computeIPdoms iter func = Some (revPostOrder, IPdoms) \<and>
           analyze iter func emptyInfo = Some info' \<and>
           finite (entry_reachable func) \<and> finite (exit_reaching func) \<and>
           tree_over (edges (getDomTreeMap info')) (Some (getEntryBlock func))
             (Some ` entry_reachable func) \<and>
           tree_over
             (edges (getPostDomTreeMap info') \<union>
              {(None, revPostOrder ! i) |i.
                 0 < i \<and> i < length revPostOrder \<and> IPdoms ! i = 0})
             None (insert None (Some ` exit_reaching func)) \<and>
           edges (getPostDomTreeMap info') \<inter>
              {(None, revPostOrder ! i) |i.
                 0 < i \<and> i < length revPostOrder \<and> IPdoms ! i = 0} = {} \<and>
           Some ` exit_blocks func \<subseteq>
              Range {(None :: BBptr, revPostOrder ! i) |i.
                 0 < i \<and> i < length revPostOrder \<and> IPdoms ! i = 0}"
  have "?R ?rpoP Tp ?info'"
    apply (intro conjI)
    apply (rule cp)
    apply (rule an)
    apply (rule f1)
    apply (rule f2)
    apply (rule t1)
    apply (rule t2)
    apply (rule dj)
    apply (rule ex)
    done
  then show ?thesis by (intro exI)
qed

theorem maps_are_trees_witness:
  "wf_cfg forked \<and> set_iteration remdups \<and>
   computeIPdoms remdups forked =
     Some ([None, Some 3, Some 2, Some 1, Some 0], [0, 0, 0, 0, 3]) \<and>
   (\<exists>revPostOrder IPdoms info'.
           computeIPdoms remdups forked = Some (revPostOrder, IPdoms) \<and>
           analyze remdups forked emptyInfo = Some info' \<and>
           finite (entry_reachable forked) \<and> finite (exit_reaching forked) \<and>
           tree_over (edges (getDomTreeMap info')) (Some (getEntryBlock forked))
             (Some ` entry_reachable forked) \<and>
           tree_over
             (edges (getPostDomTreeMap info') \<union>
              {(None, revPostOrder ! i) |i.
                 0 < i \<and> i < length revPostOrder \<and> IPdoms ! i = 0})
             None (insert None (Some ` exit_reaching forked)) \<and>
           edges (getPostDomTreeMap info') \<inter>
              {(None, revPostOrder ! i) |i.
                 0 < i \<and> i < length revPostOrder \<and> IPdoms ! i = 0} = {} \<and>
           Some ` exit_blocks forked \<subseteq>
              Range {(None :: BBptr, revPostOrder ! i) |i.
                 0 < i \<and> i < length revPostOrder \<and> IPdoms ! i = 0})"
  using maps_are_trees [OF wf_cfg_forked set_iteration_remdups]
    wf_cfg_forked set_iteration_remdups forked_analysis(1) by blast

section \<open>The parent in the dominator map dominates\<close>


lemma is_path_hd_mem: "is_path adj xs \<Longrightarrow> hd xs \<in> set xs \<and> last xs \<in> set xs"
  by (cases xs) auto











end
